theory Spec2Isabelle
  imports Main "HOL-Library.Sublist"
begin

section \<open>Strings\<close>

text \<open>
  Python strings are modelled as \<^typ>\<open>string\<close>, with characters restricted to ASCII.
  On ASCII, \<^verbatim>\<open>str.lower\<close> maps \<^verbatim>\<open>A..Z\<close> to \<^verbatim>\<open>a..z\<close> and leaves every other
  character alone, and \<^verbatim>\<open>str.strip()\<close> removes, at both ends, the characters for which
  \<^verbatim>\<open>str.isspace\<close> holds: codes 9 to 13, 28 to 31 and 32.
\<close>

definition lower_char :: "char \<Rightarrow> char" where
  "lower_char c =
     (let n = (of_char c :: nat) in if 65 \<le> n \<and> n \<le> 90 then char_of (n + 32) else c)"

definition lower :: "string \<Rightarrow> string" where
  "lower s = map lower_char s"

definition isspace :: "char \<Rightarrow> bool" where
  "isspace c =
     (let n = (of_char c :: nat) in (9 \<le> n \<and> n \<le> 13) \<or> (28 \<le> n \<and> n \<le> 32))"

definition strip :: "string \<Rightarrow> string" where
  "strip s = rev (dropWhile isspace (rev (dropWhile isspace s)))"

text \<open>\<^verbatim>\<open>s.split(c)\<close> for a separator of one character: never the empty list.\<close>

fun split_char :: "char \<Rightarrow> string \<Rightarrow> string list" where
  "split_char c [] = [[]]"
| "split_char c (x # xs) =
     (if x = c then [] # split_char c xs
      else (case split_char c xs of
              [] \<Rightarrow> [[x]]
            | p # ps \<Rightarrow> (x # p) # ps))"

text \<open>\<^verbatim>\<open>s.replace(c, new)\<close> for a pattern of one character: every occurrence is replaced.\<close>

definition replace_char :: "char \<Rightarrow> string \<Rightarrow> string \<Rightarrow> string" where
  "replace_char c new s = concat (map (\<lambda>x. if x = c then new else [x]) s)"

section \<open>Errors\<close>

text \<open>
  The exceptions that the modelled code lets escape. \<open>TransportError\<close> stands for any
  exception raised inside \<^verbatim>\<open>send_email\<close> that is not an \<^verbatim>\<open>HttpError\<close>.
\<close>

datatype error = IndexError | KeyError | JSONDecodeError | OSError | TransportError

section \<open>BlockedDomainsManager\<close>

text \<open>
  The dictionary \<^verbatim>\<open>self.data\<close>, with its two lists in insertion order. The blocklist
  file, which \<^verbatim>\<open>add_domains\<close> and \<^verbatim>\<open>add_emails\<close> rewrite after their loop, is not modelled:
  the operations below return the dictionary.
\<close>

record blocklist =
  blocked_domains :: "string list"
  blocked_emails :: "string list"

text \<open>What \<^verbatim>\<open>load\<close> returns when the file does not exist.\<close>

definition empty_blocklist :: blocklist where
  "empty_blocklist = \<lparr>blocked_domains = [], blocked_emails = []\<rparr>"

text \<open>One iteration of the loop of \<^verbatim>\<open>add_domains\<close>, then the loop itself.\<close>

definition add_domain :: "string \<Rightarrow> blocklist \<Rightarrow> blocklist" where
  "add_domain domain b =
     (let d = lower (strip domain) in
      if d \<noteq> [] \<and> d \<notin> set (blocked_domains b)
      then b\<lparr>blocked_domains := blocked_domains b @ [d]\<rparr> else b)"

fun add_domains :: "string list \<Rightarrow> blocklist \<Rightarrow> blocklist" where
  "add_domains [] b = b"
| "add_domains (d # ds) b = add_domains ds (add_domain d b)"

definition add_email :: "string \<Rightarrow> blocklist \<Rightarrow> blocklist" where
  "add_email email b =
     (let e = lower (strip email) in
      if e \<noteq> [] \<and> e \<notin> set (blocked_emails b)
      then b\<lparr>blocked_emails := blocked_emails b @ [e]\<rparr> else b)"

fun add_emails :: "string list \<Rightarrow> blocklist \<Rightarrow> blocklist" where
  "add_emails [] b = b"
| "add_emails (e # es) b = add_emails es (add_email e b)"

definition is_blocked :: "blocklist \<Rightarrow> string \<Rightarrow> bool" where
  "is_blocked b email =
     (let e = lower (strip email) in
      if e \<in> set (blocked_emails b) then True
      else (let domain = (if CHR ''@'' \<in> set e then last (split_char CHR ''@'' e) else [])
            in domain \<in> set (blocked_domains b)))"

text \<open>The blocklists that \<^verbatim>\<open>add_domains\<close> and \<^verbatim>\<open>add_emails\<close> build from the empty one.\<close>

inductive reachable_blocklist :: "blocklist \<Rightarrow> bool" where
  reach_empty: "reachable_blocklist empty_blocklist"
| reach_domains: "reachable_blocklist b \<Longrightarrow> reachable_blocklist (add_domains ds b)"
| reach_emails: "reachable_blocklist b \<Longrightarrow> reachable_blocklist (add_emails es b)"

text \<open>
  The words of the specification, for comparison with \<open>is_blocked\<close>: the normalised
  address, the substring of a string after its last \<^verbatim>\<open>@\<close>, and the domain of an address,
  empty when the address has no \<^verbatim>\<open>@\<close>.
\<close>

definition normalize_email :: "string \<Rightarrow> string" where
  "normalize_email email = lower (strip email)"

definition after_last_at :: "string \<Rightarrow> string" where
  "after_last_at s = rev (takeWhile (\<lambda>x. x \<noteq> CHR ''@'') (rev s))"

definition spec_domain :: "string \<Rightarrow> string" where
  "spec_domain s = (if CHR ''@'' \<in> set s then after_last_at s else [])"

section \<open>SendingStateManager\<close>

text \<open>The dictionary \<^verbatim>\<open>self.state\<close>; \<^verbatim>\<open>None\<close> is the date of a ledger never saved.\<close>

record sending_state =
  last_index_sent :: int
  sent_emails :: "string list"
  last_run_date :: "string option"

definition default_state :: sending_state where
  "default_state = \<lparr>last_index_sent = - 1, sent_emails = [], last_run_date = None\<rparr>"

text \<open>
  The constructor: \<^verbatim>\<open>sender_email.replace('@', '_at_').replace('.', '_')\<close> and the
  file name built from it.
\<close>

definition sender_token :: "string \<Rightarrow> string" where
  "sender_token sender_email =
     replace_char CHR ''.'' ''_'' (replace_char CHR ''@'' ''_at_'' sender_email)"

definition state_file_path :: "string \<Rightarrow> string" where
  "state_file_path sender_email = ''state_'' @ sender_token sender_email @ ''.json''"

text \<open>
  A ledger file is the sequence of pieces that \<^verbatim>\<open>json.dump\<close> has written to it: the
  opening brace, the three entries of the dictionary in their order, the closing brace.
  A file that holds a complete dump reads back as the dictionary dumped; any other
  sequence of pieces is not a JSON document and \<^verbatim>\<open>json.load\<close> raises on it.
\<close>

datatype piece =
  Obj_open
  | Entry_index int
  | Entry_emails "string list"
  | Entry_date "string option"
  | Obj_close

type_synonym file_system = "string \<rightharpoonup> piece list"

definition json_dump :: "sending_state \<Rightarrow> piece list" where
  "json_dump st =
     [Obj_open, Entry_index (last_index_sent st), Entry_emails (sent_emails st),
      Entry_date (last_run_date st), Obj_close]"

fun json_load :: "piece list \<Rightarrow> error + sending_state" where
  "json_load [Obj_open, Entry_index i, Entry_emails es, Entry_date d, Obj_close] =
     Inr \<lparr>last_index_sent = i, sent_emails = es, last_run_date = d\<rparr>"
| "json_load _ = Inl JSONDecodeError"

definition load :: "string \<Rightarrow> file_system \<Rightarrow> error + sending_state" where
  "load file_path fs =
     (case fs file_path of
        Some content \<Rightarrow> json_load content
      | None \<Rightarrow> Inr default_state)"

text \<open>
  \<^verbatim>\<open>save\<close> stamps the date, opens the file for writing, which empties it, and writes the
  dump piece by piece. These are its operations on the disk, in order.
\<close>

datatype disk_op = Truncate | Append piece

fun apply_op :: "string \<Rightarrow> disk_op \<Rightarrow> file_system \<Rightarrow> file_system" where
  "apply_op p Truncate fs = fs(p \<mapsto> [])"
| "apply_op p (Append x) fs = fs(p \<mapsto> (case fs p of None \<Rightarrow> [x] | Some xs \<Rightarrow> xs @ [x]))"

fun apply_ops :: "string \<Rightarrow> disk_op list \<Rightarrow> file_system \<Rightarrow> file_system" where
  "apply_ops p [] fs = fs"
| "apply_ops p (x # xs) fs = apply_ops p xs (apply_op p x fs)"

definition save_ops :: "sending_state \<Rightarrow> disk_op list" where
  "save_ops st = Truncate # map Append (json_dump st)"

text \<open>
  The manager: its file path and its dictionary, beside the disk. A save either
  completes, or the process stops (an \<^verbatim>\<open>OSError\<close>, or a crash) when \<open>k\<close> of its disk
  operations are done; \<open>fault\<close> says which, \<open>None\<close> for a save that completes.
\<close>

record manager =
  file_path :: string
  state :: sending_state
  disk :: file_system

datatype 'a outcome = Returned 'a | Raised error 'a

definition save :: "string \<Rightarrow> nat option \<Rightarrow> manager \<Rightarrow> manager outcome" where
  "save now fault m =
     (let st = (state m)\<lparr>last_run_date := Some now\<rparr>;
          ops = save_ops st
      in case fault of
           None \<Rightarrow> Returned (m\<lparr>state := st, disk := apply_ops (file_path m) ops (disk m)\<rparr>)
         | Some k \<Rightarrow>
             if k < length ops
             then Raised OSError
                    (m\<lparr>state := st, disk := apply_ops (file_path m) (take k ops) (disk m)\<rparr>)
             else Returned (m\<lparr>state := st, disk := apply_ops (file_path m) ops (disk m)\<rparr>))"

text \<open>The first three lines of \<^verbatim>\<open>mark_sent\<close>, on the dictionary alone.\<close>

definition record_sent :: "int \<Rightarrow> string \<Rightarrow> sending_state \<Rightarrow> sending_state" where
  "record_sent index email st =
     (let st1 = st\<lparr>last_index_sent := index\<rparr> in
      if lower email \<notin> set (map lower (sent_emails st1))
      then st1\<lparr>sent_emails := sent_emails st1 @ [lower email]\<rparr> else st1)"

definition mark_sent :: "string \<Rightarrow> nat option \<Rightarrow> int \<Rightarrow> string \<Rightarrow> manager \<Rightarrow> manager outcome" where
  "mark_sent now fault index email m =
     save now fault (m\<lparr>state := record_sent index email (state m)\<rparr>)"

definition was_sent :: "sending_state \<Rightarrow> string \<Rightarrow> bool" where
  "was_sent st email = (lower email \<in> set (map lower (sent_emails st)))"

text \<open>\<^verbatim>\<open>SendingStateManager(sender_email)\<close>: the constructor loads the ledger.\<close>

definition new_manager :: "string \<Rightarrow> file_system \<Rightarrow> error + manager" where
  "new_manager sender_email fs =
     (let p = state_file_path sender_email in
      case load p fs of
        Inl e \<Rightarrow> Inl e
      | Inr st \<Rightarrow> Inr \<lparr>file_path = p, state = st, disk = fs\<rparr>)"

section \<open>JobApplicationSystem\<close>

text \<open>
  One row of the recipients table, every cell a string. Only \<open>email\<close> decides what the
  engine does; the other columns go to the content generator.
\<close>

record recipient =
  company_name :: string
  recipient_name :: string
  designation :: string
  email :: string
  job_title :: string
  job_url :: string

text \<open>\<^verbatim>\<open>df.iloc[i]\<close>: a negative position counts from the end, a position out of range raises.\<close>

definition iloc :: "'a list \<Rightarrow> int \<Rightarrow> error + 'a" where
  "iloc rows i =
     (let n = int (length rows); j = (if i < 0 then i + n else i) in
      if 0 \<le> j \<and> j < n then Inr (rows ! nat j) else Inl IndexError)"

text \<open>
  What the Gmail API call does: it returns, it raises \<^verbatim>\<open>HttpError\<close> with a status, or
  anything else is raised while the message is built and sent.
\<close>

datatype api_result = Api_ok | Api_http_error int | Api_other_error

text \<open>The three values that \<^verbatim>\<open>send_email\<close> returns: \<^verbatim>\<open>True\<close>, \<^verbatim>\<open>"QUOTA_ERROR"\<close>, \<^verbatim>\<open>False\<close>.\<close>

datatype send_result = Send_true | Quota_error | Send_false

definition send_email :: "api_result \<Rightarrow> error + send_result" where
  "send_email r =
     (case r of
        Api_ok \<Rightarrow> Inr Send_true
      | Api_http_error status \<Rightarrow>
          if status \<in> {403, 429} then Inr Quota_error else Inr Send_false
      | Api_other_error \<Rightarrow> Inl TransportError)"

text \<open>
  The world outside one run, by loop position: what \<^verbatim>\<open>generate_email_content\<close> returns
  for the row (\<^verbatim>\<open>None\<close>, or the dictionary parsed from the reply, as its list of entries),
  what the Gmail API does for the message, the time read by \<^verbatim>\<open>save\<close>, and whether the
  save of that position completes.
\<close>

record env =
  generate_email_content :: "int \<Rightarrow> recipient \<Rightarrow> (string \<times> string) list option"
  gmail_api :: "int \<Rightarrow> string \<Rightarrow> api_result"
  clock :: "int \<Rightarrow> string"
  disk_fault :: "int \<Rightarrow> nat option"

text \<open>What one iteration of the loop did with its recipient, and how a run ended.\<close>

datatype action = Generate | Deliver | Mark

datatype run_status =
  Completed
  | Stopped_quota
  | Test_limit
  | Aborted error
  | Not_authenticated
  | No_recipients_file

datatype control = Continue | Stop run_status

text \<open>
  The body of the loop of \<^verbatim>\<open>run_sending_process\<close> from the skip test on, for position
  \<open>i\<close> and its row: the actions taken, the manager afterwards, and whether the loop goes on.
  A dictionary without \<^verbatim>\<open>subject\<close> or \<^verbatim>\<open>body\<close> raises \<^verbatim>\<open>KeyError\<close> where the entry is read.
  What the loop prints and the pause after a delivery are left out.
\<close>

definition process_row ::
  "env \<Rightarrow> bool \<Rightarrow> blocklist \<Rightarrow> int \<Rightarrow> int \<Rightarrow> recipient \<Rightarrow> manager
     \<Rightarrow> action list \<times> manager \<times> control" where
  "process_row w test_mode blocked start_index i row m =
     (let e = email row in
      if is_blocked blocked e \<or> was_sent (state m) e then ([], m, Continue)
      else
        (case generate_email_content w i row of
           None \<Rightarrow> ([Generate], m, Continue)
         | Some content \<Rightarrow>
             if content = [] then ([Generate], m, Continue)
             else if test_mode then
               (case (map_of content ''subject'', map_of content ''body'') of
                  (Some subject, Some body) \<Rightarrow>
                    ([Generate], m, if start_index + 2 \<le> i then Stop Test_limit else Continue)
                | _ \<Rightarrow> ([Generate], m, Stop (Aborted KeyError)))
             else
               (case (map_of content ''subject'', map_of content ''body'') of
                  (Some subject, Some body) \<Rightarrow>
                    (case send_email (gmail_api w i e) of
                       Inl err \<Rightarrow> ([Generate, Deliver], m, Stop (Aborted err))
                     | Inr Send_true \<Rightarrow>
                         (case mark_sent (clock w i) (disk_fault w i) i e m of
                            Returned m' \<Rightarrow> ([Generate, Deliver, Mark], m', Continue)
                          | Raised err m' \<Rightarrow>
                              ([Generate, Deliver, Mark], m', Stop (Aborted err)))
                     | Inr Quota_error \<Rightarrow> ([Generate, Deliver], m, Stop Stopped_quota)
                     | Inr Send_false \<Rightarrow> ([Generate, Deliver], m, Continue))
                | _ \<Rightarrow> ([Generate], m, Stop (Aborted KeyError)))))"

text \<open>The record of one iteration: the position, the address, the ledger before and after.\<close>

record iteration =
  it_pos :: int
  it_email :: string
  it_before :: sending_state
  it_acts :: "action list"
  it_after :: sending_state

text \<open>
  The \<^verbatim>\<open>for\<close> loop over the positions of \<^verbatim>\<open>range(start_index, len(df))\<close>: \<^verbatim>\<open>continue\<close> goes
  to the next position, \<^verbatim>\<open>break\<close> and an exception end the loop.
\<close>

fun sending_loop ::
  "env \<Rightarrow> bool \<Rightarrow> blocklist \<Rightarrow> recipient list \<Rightarrow> int \<Rightarrow> int list \<Rightarrow> manager
     \<Rightarrow> iteration list \<times> manager \<times> run_status" where
  "sending_loop w test_mode blocked rows start_index [] m = ([], m, Completed)"
| "sending_loop w test_mode blocked rows start_index (i # rest) m =
     (case iloc rows i of
        Inl err \<Rightarrow> ([], m, Aborted err)
      | Inr row \<Rightarrow>
          (case process_row w test_mode blocked start_index i row m of
             (acts, m', ctl) \<Rightarrow>
               (let it = \<lparr>it_pos = i, it_email = email row, it_before = state m,
                          it_acts = acts, it_after = state m'\<rparr>
                in case ctl of
                     Stop st \<Rightarrow> ([it], m', st)
                   | Continue \<Rightarrow>
                       (case sending_loop w test_mode blocked rows start_index rest m' of
                          (its, m'', st) \<Rightarrow> (it # its, m'', st)))))"

text \<open>
  The configuration of a run: whether \<^verbatim>\<open>gmail_service\<close> is set, the sender, the rows of
  the recipients file (\<open>None\<close> when the file does not exist), the blocklist as loaded,
  and the mode.
\<close>

record config =
  authenticated :: bool
  sender_email :: string
  recipients :: "recipient list option"
  blocked :: blocklist
  test_mode :: bool

text \<open>
  The result of a run: its iterations, the ledger as loaded and as it is in memory at the
  end (none when the run returned before loading it), the disk, and how the run ended.
\<close>

record run_result =
  iterations :: "iteration list"
  loaded_state :: "sending_state option"
  final_state :: "sending_state option"
  final_disk :: file_system
  status :: run_status

definition run_sending_process :: "env \<Rightarrow> config \<Rightarrow> file_system \<Rightarrow> run_result" where
  "run_sending_process w cfg fs =
     (if \<not> authenticated cfg then
        \<lparr>iterations = [], loaded_state = None, final_state = None, final_disk = fs,
         status = Not_authenticated\<rparr>
      else
        (case recipients cfg of
           None \<Rightarrow>
             \<lparr>iterations = [], loaded_state = None, final_state = None, final_disk = fs,
              status = No_recipients_file\<rparr>
         | Some rows \<Rightarrow>
             (case new_manager (sender_email cfg) fs of
                Inl err \<Rightarrow>
                  \<lparr>iterations = [], loaded_state = None, final_state = None, final_disk = fs,
                   status = Aborted err\<rparr>
              | Inr m \<Rightarrow>
                  (let start_index = last_index_sent (state m) + 1 in
                   case sending_loop w (test_mode cfg) (blocked cfg) rows start_index
                          [start_index .. int (length rows) - 1] m of
                     (its, m', st) \<Rightarrow>
                       \<lparr>iterations = its, loaded_state = Some (state m),
                        final_state = Some (state m'), final_disk = disk m',
                        status = st\<rparr>))))"

section \<open>Notions used to state the properties\<close>

text \<open>
  The order on ledgers in which the cursor does not decrease and the list of sent
  addresses is only extended at its end.
\<close>

definition ledger_le :: "sending_state \<Rightarrow> sending_state \<Rightarrow> bool" where
  "ledger_le a b \<longleftrightarrow>
     last_index_sent a \<le> last_index_sent b \<and> prefix (sent_emails a) (sent_emails b)"

text \<open>The positions for which a run called \<^verbatim>\<open>mark_sent\<close>, in the order of the calls.\<close>

definition mark_positions :: "iteration list \<Rightarrow> int list" where
  "mark_positions its = map it_pos (filter (\<lambda>it. Mark \<in> set (it_acts it)) its)"


text \<open>
  Reading a sender back from its token, greedily: \<^verbatim>\<open>_at_\<close> as \<^verbatim>\<open>@\<close>, any other \<^verbatim>\<open>_\<close> as
  a dot. It is not part of the program; it shows on which senders the token is injective:
  those without \<^verbatim>\<open>_\<close> in which no dot is followed by \<^verbatim>\<open>at.\<close> or \<^verbatim>\<open>at@\<close>.
\<close>

fun token_decode :: "string \<Rightarrow> string" where
  "token_decode [] = []"
| "token_decode (c # cs) =
     (if c = CHR ''_'' then
        (if take 3 cs = ''at_'' then CHR ''@'' # token_decode (drop 3 cs)
         else CHR ''.'' # token_decode cs)
      else c # token_decode cs)"

fun plain_sender :: "string \<Rightarrow> bool" where
  "plain_sender [] = True"
| "plain_sender (c # cs) =
     (c \<noteq> CHR ''_'' \<and>
      \<not> (c = CHR ''.'' \<and> take 2 cs = ''at'' \<and> take 1 (drop 2 cs) \<in> {''.'', ''@''}) \<and>
      plain_sender cs)"

section \<open>Example inputs\<close>

text \<open>
  A recipients table of five rows, the fifth repeating the address of the first in
  another case, a blocklist with one domain, a content generator that always answers,
  and a configuration for the sender \<^verbatim>\<open>me@mail.org\<close>. The Gmail API and the disk faults are
  left open.
\<close>

definition example_row :: "string \<Rightarrow> recipient" where
  "example_row e =
     \<lparr>company_name = ''Acme'', recipient_name = ''HR Manager'', designation = ''Recruiter'',
      email = e, job_title = ''Developer'', job_url = ''https://jobs.example/1''\<rparr>"

definition example_rows :: "recipient list" where
  "example_rows =
     [example_row ''a@x.org'', example_row ''B@y.org'', example_row ''c@spam.example'',
      example_row ''d@z.org'', example_row ''A@X.ORG'']"

definition example_env :: "(int \<Rightarrow> api_result) \<Rightarrow> (int \<Rightarrow> nat option) \<Rightarrow> env" where
  "example_env api faults =
     \<lparr>generate_email_content =
        (\<lambda>i row. Some [(''subject'', ''Application''), (''body'', ''Dear team'')]),
      gmail_api = (\<lambda>i e. api i),
      clock = (\<lambda>i. ''2026-01-01T00:00:00''),
      disk_fault = faults\<rparr>"

definition example_config :: "bool \<Rightarrow> config" where
  "example_config dry =
     \<lparr>authenticated = True, sender_email = ''me@mail.org'',
      recipients = Some example_rows,
      blocked = add_domains [''spam.example''] empty_blocklist,
      test_mode = dry\<rparr>"

text \<open>
  An API that always succeeds, one that fails at position 3, and one that fails at 0 and
  meets the quota at 1; a disk without faults.
\<close>

definition api_ok :: "int \<Rightarrow> api_result" where
  "api_ok i = Api_ok"

definition api_fail_3 :: "int \<Rightarrow> api_result" where
  "api_fail_3 i = (if i = 3 then Api_http_error 500 else Api_ok)"

definition api_quota_1 :: "int \<Rightarrow> api_result" where
  "api_quota_1 i =
     (if i = 0 then Api_http_error 500 else if i = 1 then Api_http_error 429 else Api_ok)"

definition no_fault :: "int \<Rightarrow> nat option" where
  "no_fault i = None"

text \<open>
  Two runs in succession on an empty disk, the first with the API failing at position 3;
  a dry run; and two runs in succession with the quota met at position 1.
\<close>

definition example_run1 :: run_result where
  "example_run1 =
     run_sending_process (example_env api_fail_3 no_fault) (example_config False) Map.empty"

definition example_run2 :: run_result where
  "example_run2 =
     run_sending_process (example_env api_ok no_fault) (example_config False)
       (final_disk example_run1)"

definition example_dry_run :: run_result where
  "example_dry_run =
     run_sending_process (example_env api_ok no_fault) (example_config True) Map.empty"

definition example_quota_run1 :: run_result where
  "example_quota_run1 =
     run_sending_process (example_env api_quota_1 no_fault) (example_config False) Map.empty"

definition example_quota_run2 :: run_result where
  "example_quota_run2 =
     run_sending_process (example_env api_quota_1 no_fault) (example_config False)
       (final_disk example_quota_run1)"

text \<open>A run in which the API raises something else than \<^verbatim>\<open>HttpError\<close> at position 1.\<close>

definition api_raise_1 :: "int \<Rightarrow> api_result" where
  "api_raise_1 i = (if i = 1 then Api_other_error else Api_ok)"

definition example_raise_run :: run_result where
  "example_raise_run =
     run_sending_process (example_env api_raise_1 no_fault) (example_config False) Map.empty"

text \<open>
  Later calls of \<^verbatim>\<open>mark_sent\<close> on the same manager, each with its time, its fault, its
  position and its address; the first one that raises ends the process.
\<close>

fun mark_all :: "(string \<times> nat option \<times> int \<times> string) list \<Rightarrow> manager \<Rightarrow> manager outcome" where
  "mark_all [] m = Returned m"
| "mark_all ((now, fault, index, address) # rest) m =
     (case mark_sent now fault index address m of
        Returned m' \<Rightarrow> mark_all rest m'
      | Raised err m' \<Rightarrow> Raised err m')"

text \<open>A manager for the sender \<^verbatim>\<open>me@mail.org\<close> on an empty disk.\<close>

definition example_manager :: manager where
  "example_manager =
     \<lparr>file_path = state_file_path ''me@mail.org'', state = default_state, disk = Map.empty\<rparr>"

text \<open>
  The manager after a first \<^verbatim>\<open>mark_sent\<close> that completed; and a run in which the save at
  position 1 stops after three disk operations: the file emptied, two pieces written.
\<close>

definition example_saved :: manager where
  "example_saved =
     (case mark_sent ''2026-01-01T00:00:00'' None 0 ''a@x.org'' example_manager of
        Returned m \<Rightarrow> m
      | Raised err m \<Rightarrow> m)"

definition fault_at_1 :: "int \<Rightarrow> nat option" where
  "fault_at_1 i = (if i = 1 then Some 3 else None)"

definition example_fault_run :: run_result where
  "example_fault_run =
     run_sending_process (example_env api_ok fault_at_1) (example_config False) Map.empty"

section \<open>Properties of the blocklist\<close>

lemma split_char_not_Nil: "split_char c s \<noteq> []"
  by (induction s) (auto split: list.splits)

lemma split_char_length: "c \<in> set s \<Longrightarrow> 2 \<le> length (split_char c s)"
  using split_char_not_Nil[of c]
  by (induction s) (auto split: list.splits simp: Suc_le_eq)

lemma split_char_no_sep: "c \<notin> set s \<Longrightarrow> split_char c s = [s]"
  by (induction s) auto

lemma last_split_char_sep: "c \<notin> set ys \<Longrightarrow> last (split_char c (xs @ c # ys)) = ys"
proof (induction xs)
  case Nil
  then show ?case by (simp add: split_char_no_sep)
next
  case (Cons x xs)
  have "2 \<le> length (split_char c (xs @ c # ys))"
    by (rule split_char_length) simp
  then obtain p q qs where "split_char c (xs @ c # ys) = p # q # qs"
    by (cases "split_char c (xs @ c # ys)"; cases "tl (split_char c (xs @ c # ys))") auto
  with Cons show ?case by auto
qed

lemma last_split_char: "last (split_char c s) = rev (takeWhile (\<lambda>x. x \<noteq> c) (rev s))"
proof (cases "c \<in> set s")
  case False
  then have tw: "takeWhile (\<lambda>x. x \<noteq> c) (rev s) = rev s"
    by (auto simp: takeWhile_eq_all_conv)
  from False show ?thesis by (simp add: split_char_no_sep tw)
next
  case True
  then obtain xs ys where s: "s = xs @ c # ys" and ys: "c \<notin> set ys"
    by (auto dest: split_list_last)
  have "takeWhile (\<lambda>x. x \<noteq> c) (rev ys @ c # rev xs) = rev ys"
    using ys by (subst takeWhile_append2) auto
  with s ys show ?thesis by (simp add: last_split_char_sep)
qed

lemma add_domain_no_empty:
  "[] \<notin> set (blocked_domains b) \<Longrightarrow> [] \<notin> set (blocked_domains (add_domain d b))"
  by (auto simp: add_domain_def Let_def)

lemma add_domains_no_empty:
  "[] \<notin> set (blocked_domains b) \<Longrightarrow> [] \<notin> set (blocked_domains (add_domains ds b))"
  by (induction ds arbitrary: b) (simp_all add: add_domain_no_empty)

lemma add_email_domains: "blocked_domains (add_email e b) = blocked_domains b"
  by (simp add: add_email_def Let_def)

lemma add_emails_domains: "blocked_domains (add_emails es b) = blocked_domains b"
  by (induction es arbitrary: b) (simp_all add: add_email_domains)

lemma reachable_no_empty_domain:
  "reachable_blocklist b \<Longrightarrow> [] \<notin> set (blocked_domains b)"
  by (induction rule: reachable_blocklist.induct)
     (simp_all add: empty_blocklist_def add_domains_no_empty add_emails_domains)

lemma is_blocked_spec:
  "is_blocked b e \<longleftrightarrow>
     normalize_email e \<in> set (blocked_emails b) \<or> spec_domain (normalize_email e) \<in> set (blocked_domains b)"
  by (simp add: is_blocked_def normalize_email_def spec_domain_def after_last_at_def Let_def
        last_split_char)

section \<open>Properties of the ledger\<close>

lemma lower_char_idem: "lower_char (lower_char c) = lower_char c"
  by (auto simp: lower_char_def Let_def)

lemma lower_idem: "lower (lower s) = lower s"
  by (simp add: lower_def lower_char_idem)

lemma json_roundtrip: "json_load (json_dump st) = Inr st"
  by (simp add: json_dump_def)

lemma json_load_prefix:
  assumes "k < 5"
  shows "json_load (take k (json_dump st)) = Inl JSONDecodeError"
proof -
  from assms have "k = 0 \<or> k = 1 \<or> k = 2 \<or> k = 3 \<or> k = 4" by arith
  then show ?thesis
    by (elim disjE) (simp_all add: json_dump_def)
qed

lemma apply_ops_append:
  "fs p = Some ys \<Longrightarrow> apply_ops p (map Append xs) fs = fs(p \<mapsto> ys @ xs)"
proof (induction xs arbitrary: fs ys)
  case Nil
  then show ?case by (simp add: map_upd_triv)
next
  case (Cons x xs)
  have "apply_ops p (map Append xs) (fs(p \<mapsto> ys @ [x])) = (fs(p \<mapsto> ys @ [x]))(p \<mapsto> (ys @ [x]) @ xs)"
    by (rule Cons.IH) simp
  with Cons.prems show ?case by simp
qed

lemma apply_ops_save: "apply_ops p (save_ops st) fs = fs(p \<mapsto> json_dump st)"
  using apply_ops_append [of "fs(p \<mapsto> [])" p "[]" "json_dump st"]
  by (simp add: save_ops_def)

lemma apply_ops_take:
  "apply_ops p (take k (save_ops st)) fs =
     (if k = 0 then fs else fs(p \<mapsto> take (k - 1) (json_dump st)))"
proof (cases k)
  case 0
  then show ?thesis by simp
next
  case (Suc j)
  then show ?thesis
    using apply_ops_append [of "fs(p \<mapsto> [])" p "[]" "take j (json_dump st)"]
    by (simp add: save_ops_def take_map)
qed

lemma length_save_ops: "length (save_ops st) = 6"
  by (simp add: save_ops_def json_dump_def)

lemma save_Returned:
  assumes "save now fault m = Returned m'"
  shows "m' = m\<lparr>state := (state m)\<lparr>last_run_date := Some now\<rparr>,
                 disk := (disk m)(file_path m \<mapsto> json_dump ((state m)\<lparr>last_run_date := Some now\<rparr>))\<rparr>"
  using assms
  by (auto simp: save_def Let_def apply_ops_save split: option.splits if_splits)

lemma save_Raised:
  assumes "save now fault m = Raised err m'"
  shows "err = OSError \<and> (\<exists>k<6. fault = Some k \<and>
           m' = m\<lparr>state := (state m)\<lparr>last_run_date := Some now\<rparr>,
                   disk := (if k = 0 then disk m
                            else (disk m)(file_path m \<mapsto>
                                   take (k - 1) (json_dump ((state m)\<lparr>last_run_date := Some now\<rparr>))))\<rparr>)"
  using assms
  by (auto simp: save_def Let_def apply_ops_take length_save_ops split: option.splits if_splits)

lemma ledger_le_refl: "ledger_le a a"
  by (simp add: ledger_le_def)

lemma ledger_le_trans: "ledger_le a b \<Longrightarrow> ledger_le b c \<Longrightarrow> ledger_le a c"
  by (auto simp: ledger_le_def)

lemma ledger_le_date: "ledger_le a (b\<lparr>last_run_date := d\<rparr>) = ledger_le a b"
  by (simp add: ledger_le_def)

lemma ledger_le_record_sent:
  "last_index_sent st \<le> i \<Longrightarrow> ledger_le st (record_sent i e st)"
  by (simp add: ledger_le_def record_sent_def Let_def)

lemma was_sent_mono: "ledger_le a b \<Longrightarrow> was_sent a e \<Longrightarrow> was_sent b e"
  by (auto simp: ledger_le_def was_sent_def prefix_def)

lemma was_sent_record_sent: "was_sent (record_sent i e st) e"
  by (auto simp: was_sent_def record_sent_def Let_def lower_idem)

lemma was_sent_date: "was_sent (st\<lparr>last_run_date := d\<rparr>) e = was_sent st e"
  by (simp add: was_sent_def)

lemma mark_sent_state:
  assumes "mark_sent now fault i e m = Returned m' \<or> mark_sent now fault i e m = Raised err m'"
  shows "state m' = (record_sent i e (state m))\<lparr>last_run_date := Some now\<rparr> \<and>
         file_path m' = file_path m"
  using assms by (auto simp: mark_sent_def dest!: save_Returned save_Raised)

lemma mark_sent_disk:
  assumes "mark_sent now fault i e m = Returned m'"
  shows "disk m' = (disk m)(file_path m \<mapsto> json_dump (state m'))"
  using assms by (auto simp: mark_sent_def dest!: save_Returned)

section \<open>The cases of one iteration and of the loop\<close>

lemma process_row_cases [consumes 1, case_names skip no_content key_error preview raised quota failed marked mark_failed]:
  assumes "process_row w tm bl start i row m = (acts, m', ctl)"
  obtains
    (skip) "is_blocked bl (email row) \<or> was_sent (state m) (email row)"
      "acts = []" "m' = m" "ctl = Continue"
  | (no_content) "\<not> is_blocked bl (email row)" "\<not> was_sent (state m) (email row)"
      "acts = [Generate]" "m' = m" "ctl = Continue"
  | (key_error) "\<not> is_blocked bl (email row)" "\<not> was_sent (state m) (email row)"
      "acts = [Generate]" "m' = m" "ctl = Stop (Aborted KeyError)"
  | (preview) "\<not> is_blocked bl (email row)" "\<not> was_sent (state m) (email row)" "tm"
      "acts = [Generate]" "m' = m" "ctl = (if start + 2 \<le> i then Stop Test_limit else Continue)"
  | (raised) err where "\<not> is_blocked bl (email row)" "\<not> was_sent (state m) (email row)" "\<not> tm"
      "send_email (gmail_api w i (email row)) = Inl err"
      "acts = [Generate, Deliver]" "m' = m" "ctl = Stop (Aborted err)"
  | (quota) "\<not> is_blocked bl (email row)" "\<not> was_sent (state m) (email row)" "\<not> tm"
      "send_email (gmail_api w i (email row)) = Inr Quota_error"
      "acts = [Generate, Deliver]" "m' = m" "ctl = Stop Stopped_quota"
  | (failed) "\<not> is_blocked bl (email row)" "\<not> was_sent (state m) (email row)" "\<not> tm"
      "send_email (gmail_api w i (email row)) = Inr Send_false"
      "acts = [Generate, Deliver]" "m' = m" "ctl = Continue"
  | (marked) "\<not> is_blocked bl (email row)" "\<not> was_sent (state m) (email row)" "\<not> tm"
      "send_email (gmail_api w i (email row)) = Inr Send_true"
      "mark_sent (clock w i) (disk_fault w i) i (email row) m = Returned m'"
      "acts = [Generate, Deliver, Mark]" "ctl = Continue"
  | (mark_failed) err where "\<not> is_blocked bl (email row)" "\<not> was_sent (state m) (email row)" "\<not> tm"
      "send_email (gmail_api w i (email row)) = Inr Send_true"
      "mark_sent (clock w i) (disk_fault w i) i (email row) m = Raised err m'"
      "acts = [Generate, Deliver, Mark]" "ctl = Stop (Aborted err)"
proof (cases "is_blocked bl (email row) \<or> was_sent (state m) (email row)")
  case True
  with assms show ?thesis by (intro skip) (simp_all add: process_row_def Let_def)
next
  case nb: False
  show ?thesis
  proof (cases "\<exists>c s b. generate_email_content w i row = Some c \<and> c \<noteq> [] \<and>
                  map_of c ''subject'' = Some s \<and> map_of c ''body'' = Some b")
    case False
    with assms nb have "acts = [Generate] \<and> m' = m \<and> (ctl = Continue \<or> ctl = Stop (Aborted KeyError))"
      unfolding process_row_def Let_def
      by (auto split: if_splits option.splits)
    with nb show ?thesis using no_content key_error by blast
  next
    case True
    then obtain c s b where c: "generate_email_content w i row = Some c" "c \<noteq> []"
      "map_of c ''subject'' = Some s" "map_of c ''body'' = Some b" by blast
    show ?thesis
    proof (cases tm)
      case True
      with assms nb c show ?thesis
        by (intro preview) (simp_all add: process_row_def Let_def)
    next
      case ntm: False
      with assms nb c have *: "(case send_email (gmail_api w i (email row)) of
                       Inl err \<Rightarrow> ([Generate, Deliver], m, Stop (Aborted err))
                     | Inr Send_true \<Rightarrow>
                         (case mark_sent (clock w i) (disk_fault w i) i (email row) m of
                            Returned m' \<Rightarrow> ([Generate, Deliver, Mark], m', Continue)
                          | Raised err m' \<Rightarrow>
                              ([Generate, Deliver, Mark], m', Stop (Aborted err)))
                     | Inr Quota_error \<Rightarrow> ([Generate, Deliver], m, Stop Stopped_quota)
                     | Inr Send_false \<Rightarrow> ([Generate, Deliver], m, Continue)) = (acts, m', ctl)"
        by (simp add: process_row_def Let_def)
      show ?thesis
      proof (cases "send_email (gmail_api w i (email row))")
        case (Inl err)
        with * nb ntm show ?thesis by (intro raised[of err]) simp_all
      next
        case (Inr res)
        show ?thesis
        proof (cases res)
          case Send_true
          show ?thesis
          proof (cases "mark_sent (clock w i) (disk_fault w i) i (email row) m")
            case (Returned x)
            with * Inr Send_true nb ntm show ?thesis by (intro marked) simp_all
          next
            case (Raised err x)
            with * Inr Send_true nb ntm show ?thesis by (intro mark_failed[of err]) simp_all
          qed
        next
          case Quota_error
          with * Inr nb ntm show ?thesis by (intro quota) simp_all
        next
          case Send_false
          with * Inr nb ntm show ?thesis by (intro failed) simp_all
        qed
      qed
    qed
  qed
qed

lemma sending_loop_Cons_cases [consumes 1, case_names index_error stop continue]:
  assumes "sending_loop w tm bl rows start (i # rest) m = (its, m'', st)"
  obtains
    (index_error) "iloc rows i = Inl IndexError" "its = []" "m'' = m" "st = Aborted IndexError"
  | (stop) row acts where "iloc rows i = Inr row"
      "process_row w tm bl start i row m = (acts, m'', Stop st)"
      "its = [\<lparr>it_pos = i, it_email = email row, it_before = state m, it_acts = acts,
               it_after = state m''\<rparr>]"
  | (continue) row acts m' its' where "iloc rows i = Inr row"
      "process_row w tm bl start i row m = (acts, m', Continue)"
      "sending_loop w tm bl rows start rest m' = (its', m'', st)"
      "its = \<lparr>it_pos = i, it_email = email row, it_before = state m, it_acts = acts,
               it_after = state m'\<rparr> # its'"
  using assms
  by (auto simp: Let_def iloc_def split: sum.splits prod.splits control.splits if_splits)

section \<open>Structure of a run of the loop\<close>

lemma loop_positions_prefix:
  "sending_loop w tm bl rows start ps m = (its, m'', st) \<Longrightarrow> prefix (map it_pos its) ps"
proof (induction ps arbitrary: m its)
  case Nil
  then show ?case by simp
next
  case (Cons i rest)
  from Cons.prems show ?case
  proof (cases rule: sending_loop_Cons_cases)
    case (continue row acts m' its')
    with Cons.IH [of m' its'] show ?thesis by simp
  qed simp_all
qed

lemma loop_chain:
  "sending_loop w tm bl rows start ps m = (its, m'', st) \<Longrightarrow>
     map it_before its @ [state m''] = state m # map it_after its"
proof (induction ps arbitrary: m its)
  case Nil
  then show ?case by simp
next
  case (Cons i rest)
  from Cons.prems show ?case
  proof (cases rule: sending_loop_Cons_cases)
    case (continue row acts m' its')
    with Cons.IH [of m' its'] show ?thesis by simp
  qed simp_all
qed

lemma process_row_file_path:
  assumes "process_row w tm bl start i row m = (acts, m', ctl)"
  shows "file_path m' = file_path m"
  using assms
  by (cases rule: process_row_cases)
     (auto dest: mark_sent_state [OF disjI1] mark_sent_state [OF disjI2])

lemma loop_file_path:
  "sending_loop w tm bl rows start ps m = (its, m'', st) \<Longrightarrow> file_path m'' = file_path m"
proof (induction ps arbitrary: m its)
  case Nil
  then show ?case by simp
next
  case (Cons i rest)
  from Cons.prems show ?case
  proof (cases rule: sending_loop_Cons_cases)
    case (continue row acts m' its')
    with Cons.IH [of m' its'] show ?thesis by (simp add: process_row_file_path)
  qed (simp_all add: process_row_file_path)
qed

lemma loop_iteration:
  "sending_loop w tm bl rows start ps m = (its, m'', st) \<Longrightarrow> it \<in> set its \<Longrightarrow>
     \<exists>row mb ma ctl. iloc rows (it_pos it) = Inr row \<and> it_email it = email row \<and>
       it_before it = state mb \<and> it_after it = state ma \<and> file_path mb = file_path m \<and>
       process_row w tm bl start (it_pos it) row mb = (it_acts it, ma, ctl) \<and>
       (\<forall>s. ctl = Stop s \<longrightarrow> st = s \<and> m'' = ma \<and> last its = it)"
proof (induction ps arbitrary: m its)
  case Nil
  then show ?case by simp
next
  case (Cons i rest)
  from Cons.prems(1) show ?case
  proof (cases rule: sending_loop_Cons_cases)
    case index_error
    with Cons.prems show ?thesis by simp
  next
    case (stop row acts)
    with Cons.prems show ?thesis by auto
  next
    case (continue row acts m' its')
    show ?thesis
    proof (cases "it \<in> set its'")
      case True
      from Cons.IH [OF continue(3) True] True continue show ?thesis
        by (auto simp: process_row_file_path)
    next
      case False
      with Cons.prems(2) continue show ?thesis by auto
    qed
  qed
qed

section \<open>The ledger along a run of the loop\<close>

lemma record_sent_index: "last_index_sent (record_sent i e st) = i"
  by (simp add: record_sent_def Let_def)

lemma process_row_mono:
  assumes "process_row w tm bl start i row m = (acts, m', ctl)"
    and "last_index_sent (state m) < i"
  shows "ledger_le (state m) (state m') \<and> last_index_sent (state m') \<le> i \<and>
         (Mark \<in> set acts \<longrightarrow> last_index_sent (state m') = i) \<and>
         (Mark \<notin> set acts \<longrightarrow> m' = m)"
  using assms
proof (cases rule: process_row_cases)
  case marked
  from mark_sent_state [OF disjI1, OF marked(5)] assms(2) marked(6) show ?thesis
    by (simp add: ledger_le_date ledger_le_record_sent record_sent_index)
next
  case (mark_failed err)
  from mark_sent_state [OF disjI2, OF mark_failed(5)] assms(2) mark_failed(6) show ?thesis
    by (simp add: ledger_le_date ledger_le_record_sent record_sent_index)
qed (simp_all add: ledger_le_refl)

lemma sorted_wrt_ledger_le_Cons:
  "ledger_le a b \<Longrightarrow> sorted_wrt ledger_le (b # xs) \<Longrightarrow> sorted_wrt ledger_le (a # b # xs)"
  by (auto intro: ledger_le_trans)

lemma loop_mono:
  "sending_loop w tm bl rows start ps m = (its, m'', st) \<Longrightarrow>
   sorted_wrt (<) (last_index_sent (state m) # ps) \<Longrightarrow>
     sorted_wrt ledger_le (state m # map it_after its) \<and>
     sorted_wrt (<) (last_index_sent (state m) # mark_positions its) \<and>
     ledger_le (state m) (state m'') \<and>
     (\<forall>it\<in>set its. last_index_sent (it_before it) < it_pos it)"
proof (induction ps arbitrary: m its)
  case Nil
  then show ?case by (simp add: mark_positions_def ledger_le_refl)
next
  case (Cons i rest)
  from Cons.prems(2) have lt: "last_index_sent (state m) < i" by simp
  from Cons.prems(1) show ?case
  proof (cases rule: sending_loop_Cons_cases)
    case index_error
    then show ?thesis by (simp add: mark_positions_def ledger_le_refl)
  next
    case (stop row acts)
    from process_row_mono [OF stop(2) lt] stop(3) lt show ?thesis
      by (auto simp: mark_positions_def)
  next
    case (continue row acts m' its')
    note pm = process_row_mono [OF continue(2) lt]
    from pm Cons.prems(2) have "sorted_wrt (<) (last_index_sent (state m') # rest)"
      by auto
    from Cons.IH [OF continue(3) this]
    have ih: "sorted_wrt ledger_le (state m' # map it_after its')"
      "sorted_wrt (<) (last_index_sent (state m') # mark_positions its')"
      "ledger_le (state m') (state m'')"
      "\<forall>it\<in>set its'. last_index_sent (it_before it) < it_pos it" by simp_all
    from pm have le: "ledger_le (state m) (state m')" by simp
    have 1: "sorted_wrt ledger_le (state m # map it_after its)"
      using sorted_wrt_ledger_le_Cons [OF le ih(1)] continue(4) by simp
    have 2: "sorted_wrt (<) (last_index_sent (state m) # mark_positions its)"
    proof (cases "Mark \<in> set acts")
      case True
      with pm ih(2) lt continue(4) show ?thesis
        by (auto simp: mark_positions_def)
    next
      case False
      with pm ih(2) continue(4) show ?thesis
        by (auto simp: mark_positions_def)
    qed
    have 3: "\<forall>it\<in>set its. last_index_sent (it_before it) < it_pos it"
      using ih(4) lt continue(4) by simp
    from 1 2 3 le ih(3) show ?thesis by (blast intro: ledger_le_trans)
  qed
qed

lemma process_row_test_mode:
  assumes "process_row w True bl start i row m = (acts, m', ctl)"
  shows "m' = m \<and> set acts \<subseteq> {Generate}"
  using assms by (cases rule: process_row_cases) simp_all

lemma loop_test_mode:
  "sending_loop w True bl rows start ps m = (its, m'', st) \<Longrightarrow>
     m'' = m \<and> (\<forall>it\<in>set its. set (it_acts it) \<subseteq> {Generate} \<and> it_after it = it_before it)"
proof (induction ps arbitrary: m its)
  case Nil
  then show ?case by simp
next
  case (Cons i rest)
  from Cons.prems(1) show ?case
  proof (cases rule: sending_loop_Cons_cases)
    case (continue row acts m' its')
    with Cons.IH [OF continue(3)] process_row_test_mode [OF continue(2)] show ?thesis by simp
  next
    case (stop row acts)
    with process_row_test_mode [OF stop(2)] show ?thesis by simp
  qed simp
qed

section \<open>The cases of a run\<close>

lemma new_manager_Inr:
  assumes "new_manager s fs = Inr m"
  shows "file_path m = state_file_path s \<and> disk m = fs \<and>
         load (state_file_path s) fs = Inr (state m)"
  using assms by (auto simp: new_manager_def Let_def split: sum.splits)

lemma new_manager_Inl:
  assumes "new_manager s fs = Inl err"
  shows "load (state_file_path s) fs = Inl err"
  using assms by (auto simp: new_manager_def Let_def split: sum.splits)

lemma load_error: "load p fs = Inl err \<Longrightarrow> err = JSONDecodeError"
  by (auto simp: load_def split: option.splits elim: json_load.elims)

lemma run_cases [case_names not_started started]:
  obtains
    (not_started) "iterations (run_sending_process w cfg fs) = []"
      "loaded_state (run_sending_process w cfg fs) = None"
      "final_state (run_sending_process w cfg fs) = None"
      "final_disk (run_sending_process w cfg fs) = fs"
      "\<not> authenticated cfg \<and> status (run_sending_process w cfg fs) = Not_authenticated \<or>
       recipients cfg = None \<and> status (run_sending_process w cfg fs) = No_recipients_file \<or>
       status (run_sending_process w cfg fs) = Aborted JSONDecodeError \<and>
         load (state_file_path (sender_email cfg)) fs = Inl JSONDecodeError"
  | (started) rows m m' where "authenticated cfg" "recipients cfg = Some rows"
      "new_manager (sender_email cfg) fs = Inr m"
      "sending_loop w (test_mode cfg) (blocked cfg) rows (last_index_sent (state m) + 1)
         [last_index_sent (state m) + 1 .. int (length rows) - 1] m =
       (iterations (run_sending_process w cfg fs), m', status (run_sending_process w cfg fs))"
      "loaded_state (run_sending_process w cfg fs) = Some (state m)"
      "final_state (run_sending_process w cfg fs) = Some (state m')"
      "final_disk (run_sending_process w cfg fs) = disk m'"
proof (cases "authenticated cfg")
  case False
  then show ?thesis by (intro not_started) (simp_all add: run_sending_process_def)
next
  case auth: True
  show ?thesis
  proof (cases "recipients cfg")
    case None
    with auth show ?thesis by (intro not_started) (simp_all add: run_sending_process_def)
  next
    case (Some rows)
    show ?thesis
    proof (cases "new_manager (sender_email cfg) fs")
      case (Inl err)
      from new_manager_Inl [OF Inl] load_error [of _ fs err]
      have "err = JSONDecodeError" "load (state_file_path (sender_email cfg)) fs = Inl JSONDecodeError"
        by auto
      with auth Some Inl show ?thesis
        by (intro not_started) (simp_all add: run_sending_process_def)
    next
      case (Inr m)
      obtain its m' st where l: "sending_loop w (test_mode cfg) (blocked cfg) rows
          (last_index_sent (state m) + 1)
          [last_index_sent (state m) + 1 .. int (length rows) - 1] m = (its, m', st)"
        by (cases "sending_loop w (test_mode cfg) (blocked cfg) rows
          (last_index_sent (state m) + 1)
          [last_index_sent (state m) + 1 .. int (length rows) - 1] m") auto
      with auth Some Inr show ?thesis
        by (intro started [of rows m m']) (simp_all add: run_sending_process_def Let_def)
    qed
  qed
qed

lemma sorted_wrt_less_upto: "sorted_wrt (<) (c # [c + 1 .. n])"
  by (simp add: strict_sorted_iff [symmetric] sorted_wrt_upto)

section \<open>The disk along a run of the loop\<close>

lemma load_update: "load p (fs(p \<mapsto> json_dump st)) = Inr st"
  by (simp add: load_def json_roundtrip)

lemma load_torn: "k < 5 \<Longrightarrow> load p (fs(p \<mapsto> take k (json_dump st))) = Inl JSONDecodeError"
  by (simp add: load_def json_load_prefix)

lemma send_email_Inl: "send_email r = Inl err \<Longrightarrow> err = TransportError"
  by (cases r) (auto simp: send_email_def split: if_splits)

lemma mark_sent_Returned_load:
  assumes "mark_sent now fault i e m = Returned m'"
  shows "load (file_path m) (disk m') = Inr (state m') \<and>
         (\<forall>p. p \<noteq> file_path m \<longrightarrow> disk m' p = disk m p)"
  using mark_sent_disk [OF assms] by (simp add: load_update)

lemma mark_sent_Raised_load:
  assumes "mark_sent now fault i e m = Raised err m'"
  shows "err = OSError \<and>
         (disk m' = disk m \<or> load (file_path m) (disk m') = Inl JSONDecodeError) \<and>
         (\<forall>p. p \<noteq> file_path m \<longrightarrow> disk m' p = disk m p)"
proof -
  from assms have "save now fault (m\<lparr>state := record_sent i e (state m)\<rparr>) = Raised err m'"
    by (simp add: mark_sent_def)
  from save_Raised [OF this] obtain k where k: "k < 6" "err = OSError"
    "disk m' = (if k = 0 then disk m
                else (disk m)(file_path m \<mapsto>
                  take (k - 1) (json_dump ((record_sent i e (state m))\<lparr>last_run_date := Some now\<rparr>))))"
    by auto
  show ?thesis
  proof (cases "k = 0")
    case True
    with k show ?thesis by simp
  next
    case False
    with k have "k - 1 < 5" by arith
    from load_torn [OF this] k False show ?thesis by simp
  qed
qed

lemma process_row_disk:
  assumes "process_row w tm bl start i row m = (acts, m', ctl)"
    and "load (file_path m) (disk m) = Inr (state m)"
  shows "(ctl \<noteq> Stop (Aborted OSError) \<and> load (file_path m) (disk m') = Inr (state m') \<or>
          ctl = Stop (Aborted OSError) \<and>
            (disk m' = disk m \<or> load (file_path m) (disk m') = Inl JSONDecodeError)) \<and>
         (\<forall>p. p \<noteq> file_path m \<longrightarrow> disk m' p = disk m p)"
  using assms
proof (cases rule: process_row_cases)
  case (raised err)
  with assms(2) send_email_Inl [OF raised(4)] show ?thesis by simp
next
  case marked
  with mark_sent_Returned_load [OF marked(5)] show ?thesis by simp
next
  case (mark_failed err)
  with mark_sent_Raised_load [OF mark_failed(5)] show ?thesis by simp
qed simp_all

lemma loop_disk:
  "sending_loop w tm bl rows start ps m = (its, m'', st) \<Longrightarrow>
   load (file_path m) (disk m) = Inr (state m) \<Longrightarrow>
   sorted_wrt (<) (last_index_sent (state m) # ps) \<Longrightarrow>
     (st \<noteq> Aborted OSError \<and> load (file_path m) (disk m'') = Inr (state m'') \<or>
      st = Aborted OSError \<and>
        (load (file_path m) (disk m'') = Inl JSONDecodeError \<or>
         (\<exists>b. load (file_path m) (disk m'') = Inr b \<and> ledger_le (state m) b))) \<and>
     (\<forall>p. p \<noteq> file_path m \<longrightarrow> disk m'' p = disk m p)"
proof (induction ps arbitrary: m its)
  case Nil
  then show ?case by simp
next
  case (Cons i rest)
  from Cons.prems(3) have lt: "last_index_sent (state m) < i" by simp
  from Cons.prems(1) show ?case
  proof (cases rule: sending_loop_Cons_cases)
    case index_error
    with Cons.prems(2) show ?thesis by simp
  next
    case (stop row acts)
    from process_row_disk [OF stop(2) Cons.prems(2)] Cons.prems(2) show ?thesis
      by (auto intro: ledger_le_refl)
  next
    case (continue row acts m' its')
    note pd = process_row_disk [OF continue(2) Cons.prems(2)]
    note pm = process_row_mono [OF continue(2) lt]
    note fp = process_row_file_path [OF continue(2)]
    from pd fp have ld: "load (file_path m') (disk m') = Inr (state m')" by simp
    from pm Cons.prems(3) have srt: "sorted_wrt (<) (last_index_sent (state m') # rest)"
      by auto
    from Cons.IH [OF continue(3) ld srt] pd pm fp show ?thesis
      by (auto intro: ledger_le_trans)
  qed
qed

lemma prefix_upto:
  "prefix xs [a..b] \<Longrightarrow> x \<in> set xs \<Longrightarrow> a \<le> k \<Longrightarrow> k \<le> x \<Longrightarrow> k \<in> set xs"
proof (induction xs arbitrary: a)
  case Nil
  then show ?case by simp
next
  case (Cons y ys)
  from Cons.prems(1) have ab: "a \<le> b" by (cases "a \<le> b") auto
  with Cons.prems(1) have y: "y = a" and p: "prefix ys [a + 1..b]"
    by (simp_all add: upto_rec1)
  show ?case
  proof (cases "k = a")
    case True
    with y show ?thesis by simp
  next
    case False
    with Cons.prems y have "x \<in> set ys" "a + 1 \<le> k" by auto
    from Cons.IH [OF p this Cons.prems(4)] show ?thesis by simp
  qed
qed

lemma prefix_upto_hd: "prefix xs [a..b] \<Longrightarrow> xs \<noteq> [] \<Longrightarrow> hd xs = a"
  by (cases xs; cases "a \<le> b") (auto simp: upto_rec1)

lemma sorted_le_last: "sorted xs \<Longrightarrow> x \<in> set xs \<Longrightarrow> x \<le> last (xs :: int list)"
  by (induction xs) auto

lemma prefix_sorted_last:
  "prefix xs ys \<Longrightarrow> sorted_wrt (<) ys \<Longrightarrow> x \<in> set xs \<Longrightarrow> x \<le> last (xs :: int list)"
proof -
  assume "prefix xs ys" "sorted_wrt (<) ys" "x \<in> set xs"
  then have "sorted_wrt (<) xs" by (auto simp: prefix_def sorted_wrt_append)
  then have "sorted xs" by (simp add: strict_sorted_iff)
  from this \<open>x \<in> set xs\<close> show ?thesis by (rule sorted_le_last)
qed

section \<open>Later calls of mark_sent\<close>

lemma record_sent_emails:
  "sent_emails (record_sent i e st) =
     (if was_sent st e then sent_emails st else sent_emails st @ [lower e])"
  by (simp add: record_sent_def was_sent_def Let_def)

lemma record_sent_was_sent_mono: "was_sent st a \<Longrightarrow> was_sent (record_sent i e st) a"
  by (auto simp: was_sent_def record_sent_def Let_def)

lemma mark_all_keeps:
  "mark_all calls m = Returned m' \<Longrightarrow> was_sent (state m) e \<Longrightarrow>
   load (file_path m) (disk m) = Inr (state m) \<Longrightarrow>
     was_sent (state m') e \<and> file_path m' = file_path m \<and>
     load (file_path m') (disk m') = Inr (state m')"
proof (induction calls arbitrary: m)
  case Nil
  then show ?case by simp
next
  case (Cons c rest)
  obtain now fault i a where c: "c = (now, fault, i, a)" by (cases c)
  from Cons.prems(1) c obtain m1 where m1: "mark_sent now fault i a m = Returned m1"
    "mark_all rest m1 = Returned m'"
    by (auto split: outcome.splits)
  note st = mark_sent_state [OF disjI1, OF m1(1)]
  from st Cons.prems(2) have ws: "was_sent (state m1) e"
    by (simp add: was_sent_date record_sent_was_sent_mono)
  from mark_sent_Returned_load [OF m1(1)] st
  have ld: "load (file_path m1) (disk m1) = Inr (state m1)" by simp
  from Cons.IH [OF m1(2) ws ld] st show ?case by auto
qed

lemma record_sent_lower_mem:
  "\<forall>x\<in>set (sent_emails st). lower x = x \<Longrightarrow>
     lower e \<in> set (sent_emails (record_sent i e st)) \<and>
     (\<forall>x\<in>set (sent_emails (record_sent i e st)). lower x = x)"
  by (auto simp: record_sent_def Let_def lower_idem)

lemma mark_all_raised:
  "mark_all calls m = Raised err m' \<Longrightarrow> was_sent (state m) e \<Longrightarrow>
   load (file_path m) (disk m) = Inr (state m) \<Longrightarrow>
     was_sent (state m') e \<and>
     (load (file_path m) (disk m') = Inl JSONDecodeError \<or>
      (\<exists>st. load (file_path m) (disk m') = Inr st \<and> was_sent st e))"
proof (induction calls arbitrary: m)
  case Nil
  then show ?case by simp
next
  case (Cons c rest)
  obtain now fault i a where c: "c = (now, fault, i, a)" by (cases c)
  show ?case
  proof (cases "mark_sent now fault i a m")
    case (Returned m1)
    with Cons.prems(1) c have r: "mark_all rest m1 = Raised err m'" by simp
    note st = mark_sent_state [OF disjI1, OF Returned]
    from st Cons.prems(2) have ws: "was_sent (state m1) e"
      by (simp add: was_sent_date record_sent_was_sent_mono)
    from mark_sent_Returned_load [OF Returned] st
    have ld: "load (file_path m1) (disk m1) = Inr (state m1)" by simp
    from Cons.IH [OF r ws ld] st show ?thesis by simp
  next
    case (Raised err1 m1)
    with Cons.prems(1) c have eq: "m' = m1" by simp
    note st = mark_sent_state [OF disjI2, OF Raised]
    from st Cons.prems(2) eq have ws: "was_sent (state m') e"
      by (simp add: was_sent_date record_sent_was_sent_mono)
    from mark_sent_Raised_load [OF Raised] eq Cons.prems(2,3)
    have "load (file_path m) (disk m') = Inl JSONDecodeError \<or>
      (\<exists>st. load (file_path m) (disk m') = Inr st \<and> was_sent st e)"
      by auto
    with ws show ?thesis by simp
  qed
qed

section \<open>The iterations of a run\<close>

lemma chain_before_mem:
  assumes "map it_before its @ [x] = y # map it_after its" and "it \<in> set its"
  shows "it_before it \<in> set (y # map it_after its)"
proof -
  from assms(2) have "it_before it \<in> set (map it_before its @ [x])" by simp
  with assms(1) show ?thesis by simp
qed

lemma run_iteration:
  assumes "it \<in> set (iterations (run_sending_process w cfg fs))"
  obtains st0 rows row mb ma ctl where
    "loaded_state (run_sending_process w cfg fs) = Some st0"
    "recipients cfg = Some rows"
    "iloc rows (it_pos it) = Inr row" "it_email it = email row"
    "it_before it = state mb" "it_after it = state ma"
    "process_row w (test_mode cfg) (blocked cfg) (last_index_sent st0 + 1) (it_pos it) row mb =
       (it_acts it, ma, ctl)"
    "last_index_sent st0 < it_pos it" "it_pos it < int (length rows)"
    "ledger_le st0 (it_before it)" "last_index_sent (it_before it) < it_pos it"
    "\<And>s. ctl = Stop s \<Longrightarrow>
       status (run_sending_process w cfg fs) = s \<and>
       final_state (run_sending_process w cfg fs) = Some (state ma) \<and>
       final_disk (run_sending_process w cfg fs) = disk ma \<and>
       last (iterations (run_sending_process w cfg fs)) = it"
proof (cases rule: run_cases [of w cfg fs])
  case not_started
  with assms show ?thesis by simp
next
  case (started rows m m')
  let ?r = "run_sending_process w cfg fs"
  let ?c = "last_index_sent (state m)"
  note srt = sorted_wrt_less_upto [of ?c "int (length rows) - 1"]
  from loop_iteration [OF started(4) assms] obtain row mb ma ctl where
    it: "iloc rows (it_pos it) = Inr row" "it_email it = email row"
      "it_before it = state mb" "it_after it = state ma"
      "process_row w (test_mode cfg) (blocked cfg) (?c + 1) (it_pos it) row mb = (it_acts it, ma, ctl)"
      "\<forall>s. ctl = Stop s \<longrightarrow> status ?r = s \<and> m' = ma \<and> last (iterations ?r) = it"
    by blast
  from assms have "it_pos it \<in> set (map it_pos (iterations ?r))" by simp
  with set_mono_prefix [OF loop_positions_prefix [OF started(4)]]
  have "it_pos it \<in> set [?c + 1 .. int (length rows) - 1]" by blast
  then have pos: "?c < it_pos it" "it_pos it < int (length rows)" by simp_all
  note mono = loop_mono [OF started(4) srt]
  from chain_before_mem [OF loop_chain [OF started(4)] assms] mono
  have le: "ledger_le (state m) (it_before it)"
    by (auto intro: ledger_le_refl)
  from mono assms have cur: "last_index_sent (it_before it) < it_pos it" by blast
  show ?thesis
    using started(2,5,6,7) it pos le cur by (intro that [of "state m" rows row mb ma ctl]) auto
qed

lemma process_row_skip:
  "is_blocked bl (email row) \<or> was_sent (state m) (email row) \<Longrightarrow>
     process_row w tm bl start i row m = ([], m, Continue)"
  by (auto simp: process_row_def)

section \<open>The ledger a run leaves behind\<close>

lemma sorted_wrt_last:
  "sorted_wrt P xs \<Longrightarrow> x \<in> set xs \<Longrightarrow> (\<And>y. P y y) \<Longrightarrow> P x (last xs)"
  by (induction xs) auto

lemma loop_after_le_final:
  assumes "sending_loop w tm bl rows start ps m = (its, m'', st)"
    and "sorted_wrt (<) (last_index_sent (state m) # ps)"
    and "it \<in> set its"
  shows "ledger_le (it_after it) (state m'')"
proof -
  from loop_chain [OF assms(1)] have "last (map it_before its @ [state m'']) = last (state m # map it_after its)"
    by simp
  then have l: "last (state m # map it_after its) = state m''" by simp
  from loop_mono [OF assms(1,2)] have s: "sorted_wrt ledger_le (state m # map it_after its)"
    by simp
  from assms(3) have "it_after it \<in> set (state m # map it_after its)" by simp
  from sorted_wrt_last [OF s this ledger_le_refl] l show ?thesis by simp
qed

lemma process_row_marked_was_sent:
  assumes "process_row w tm bl start i row m = (acts, m', ctl)" and "Mark \<in> set acts"
  shows "was_sent (state m') (email row)"
  using assms
proof (cases rule: process_row_cases)
  case marked
  from mark_sent_state [OF disjI1, OF marked(5)] show ?thesis
    by (simp add: was_sent_date was_sent_record_sent)
next
  case (mark_failed err)
  from mark_sent_state [OF disjI2, OF mark_failed(5)] show ?thesis
    by (simp add: was_sent_date was_sent_record_sent)
qed simp_all

lemma run_started_final:
  assumes "loaded_state (run_sending_process w cfg fs) = Some st0"
  obtains fin where
    "authenticated cfg" "recipients cfg \<noteq> None"
    "load (state_file_path (sender_email cfg)) fs = Inr st0"
    "final_state (run_sending_process w cfg fs) = Some fin"
    "ledger_le st0 fin"
    "status (run_sending_process w cfg fs) \<noteq> Aborted OSError \<Longrightarrow>
       load (state_file_path (sender_email cfg)) (final_disk (run_sending_process w cfg fs)) = Inr fin"
    "\<And>b. load (state_file_path (sender_email cfg)) (final_disk (run_sending_process w cfg fs)) = Inr b
       \<Longrightarrow> ledger_le st0 b"
    "\<And>p. p \<noteq> state_file_path (sender_email cfg) \<Longrightarrow>
       final_disk (run_sending_process w cfg fs) p = fs p"
    "\<And>it. it \<in> set (iterations (run_sending_process w cfg fs)) \<Longrightarrow> ledger_le (it_after it) fin"
proof (cases rule: run_cases [of w cfg fs])
  case not_started
  with assms show ?thesis by simp
next
  case (started rows m m')
  let ?c = "last_index_sent (state m)"
  note srt = sorted_wrt_less_upto [of ?c "int (length rows) - 1"]
  note nm = new_manager_Inr [OF started(3)]
  from nm have ld: "load (file_path m) (disk m) = Inr (state m)" by simp
  note d = loop_disk [OF started(4) ld srt]
  note mono = loop_mono [OF started(4) srt]
  from started(5) assms have st0: "state m = st0" by simp
  show ?thesis
  proof (rule that [of "state m'"])
    show "authenticated cfg" by (rule started(1))
    show "recipients cfg \<noteq> None" using started(2) by simp
    show "load (state_file_path (sender_email cfg)) fs = Inr st0" using nm st0 by simp
    show "final_state (run_sending_process w cfg fs) = Some (state m')" by (rule started(6))
    show "ledger_le st0 (state m')" using mono st0 by simp
    show "load (state_file_path (sender_email cfg)) (final_disk (run_sending_process w cfg fs)) = Inr (state m')"
      if "status (run_sending_process w cfg fs) \<noteq> Aborted OSError"
      using that d nm started(7) by auto
    show "ledger_le st0 b"
      if "load (state_file_path (sender_email cfg)) (final_disk (run_sending_process w cfg fs)) = Inr b" for b
      using that d nm started(7) mono st0 by auto
    show "final_disk (run_sending_process w cfg fs) p = fs p"
      if "p \<noteq> state_file_path (sender_email cfg)" for p
      using that d nm started(7) by auto
    show "ledger_le (it_after it) (state m')"
      if "it \<in> set (iterations (run_sending_process w cfg fs))" for it
      using loop_after_le_final [OF started(4) srt that] .
  qed
qed

lemma run_loaded_load:
  "loaded_state (run_sending_process w cfg fs) = Some st \<Longrightarrow>
     load (state_file_path (sender_email cfg)) fs = Inr st"
  by (erule run_started_final)

section \<open>Iterations that deliver without success\<close>

lemma process_row_stop_unmarked:
  assumes "process_row w tm bl start i row m = (acts, m', ctl)"
    and "Deliver \<in> set acts"
    and "send_email (gmail_api w i (email row)) \<noteq> Inr Send_true"
  shows "m' = m \<and> Mark \<notin> set acts \<and> \<not> was_sent (state m) (email row) \<and>
         \<not> is_blocked bl (email row) \<and> \<not> tm \<and>
         ctl = (case send_email (gmail_api w i (email row)) of
                  Inl err \<Rightarrow> Stop (Aborted err)
                | Inr Quota_error \<Rightarrow> Stop Stopped_quota
                | Inr _ \<Rightarrow> Continue)"
  using assms by (cases rule: process_row_cases) simp_all

section \<open>The positions of a run\<close>

lemma run_positions:
  assumes "loaded_state (run_sending_process w cfg fs) = Some st0"
  obtains rows where "recipients cfg = Some rows"
    "prefix (map it_pos (iterations (run_sending_process w cfg fs)))
       [last_index_sent st0 + 1 .. int (length rows) - 1]"
proof (cases rule: run_cases [of w cfg fs])
  case not_started
  with assms show ?thesis by simp
next
  case (started rows m m')
  from loop_positions_prefix [OF started(4)] started(2,5) assms show ?thesis
    by (intro that [of rows]) auto
qed

lemma run_final_load:
  assumes "loaded_state (run_sending_process w cfg fs) = Some st0"
    and "status (run_sending_process w cfg fs) \<noteq> Aborted OSError"
  shows "authenticated cfg \<and>
         (\<exists>fin. final_state (run_sending_process w cfg fs) = Some fin \<and>
            load (state_file_path (sender_email cfg)) (final_disk (run_sending_process w cfg fs)) =
              Inr fin)"
  using assms(1)
proof (cases rule: run_started_final)
  case (1 fin)
  with assms(2) show ?thesis by simp
qed

section \<open>Saves that do not complete\<close>

lemma mark_sent_fault:
  "k < 6 \<Longrightarrow> \<exists>m'. mark_sent now (Some k) i e m = Raised OSError m'"
  by (simp add: mark_sent_def save_def length_save_ops Let_def)

lemma mark_sent_Raised_states:
  assumes "mark_sent now fault i e m = Raised err m'"
  shows "err = OSError \<and>
         (\<exists>k<6. fault = Some k \<and> (k = 0 \<longrightarrow> disk m' = disk m) \<and>
            (0 < k \<longrightarrow>
               disk m' = (disk m)(file_path m \<mapsto> take (k - 1) (json_dump (state m'))) \<and>
               load (file_path m) (disk m') = Inl JSONDecodeError))"
proof -
  from assms have "save now fault (m\<lparr>state := record_sent i e (state m)\<rparr>) = Raised err m'"
    by (simp add: mark_sent_def)
  from save_Raised [OF this] obtain k where k: "k < 6" "err = OSError" "fault = Some k"
    "m' = m\<lparr>state := (record_sent i e (state m))\<lparr>last_run_date := Some now\<rparr>,
            disk := (if k = 0 then disk m
                else (disk m)(file_path m \<mapsto>
                  take (k - 1) (json_dump ((record_sent i e (state m))\<lparr>last_run_date := Some now\<rparr>))))\<rparr>"
    by auto
  have "load (file_path m) (disk m') = Inl JSONDecodeError" if "0 < k"
  proof -
    from k(1) that have "k - 1 < 5" by arith
    from load_torn [OF this] k(4) that show ?thesis by simp
  qed
  with k show ?thesis by auto
qed

lemma process_row_save_aborted:
  assumes "process_row w tm bl start i row m = (acts, m', Stop (Aborted OSError))"
    and "load (file_path m) (disk m) = Inr (state m)"
  shows "Mark \<in> set acts \<and> \<not> was_sent (state m) (email row) \<and>
         (load (file_path m) (disk m') = Inr (state m) \<or>
          load (file_path m) (disk m') = Inl JSONDecodeError)"
  using assms(1)
proof (cases rule: process_row_cases)
  case (raised err)
  with send_email_Inl [OF raised(4)] show ?thesis by simp
next
  case (mark_failed err)
  with mark_sent_Raised_load [OF mark_failed(5)] assms(2) show ?thesis by auto
qed (simp_all split: if_splits)

lemma loop_save_aborted:
  "sending_loop w tm bl rows start ps m = (its, m'', Aborted OSError) \<Longrightarrow>
   load (file_path m) (disk m) = Inr (state m) \<Longrightarrow>
     its \<noteq> [] \<and> Mark \<in> set (it_acts (last its)) \<and>
     \<not> was_sent (it_before (last its)) (it_email (last its)) \<and>
     (load (file_path m) (disk m'') = Inr (it_before (last its)) \<or>
      load (file_path m) (disk m'') = Inl JSONDecodeError)"
proof (induction ps arbitrary: m its)
  case Nil
  then show ?case by simp
next
  case (Cons i rest)
  from Cons.prems(1) show ?case
  proof (cases rule: sending_loop_Cons_cases)
    case index_error
    then show ?thesis by simp
  next
    case (stop row acts)
    from process_row_save_aborted [OF stop(2) Cons.prems(2)] stop(3) show ?thesis by simp
  next
    case (continue row acts m' its')
    note pd = process_row_disk [OF continue(2) Cons.prems(2)]
    note fp = process_row_file_path [OF continue(2)]
    from pd fp have ld: "load (file_path m') (disk m') = Inr (state m')" by simp
    from Cons.IH [OF continue(3) ld] fp continue(4) show ?thesis by simp
  qed
qed

lemma run_save_aborted:
  assumes "status (run_sending_process w cfg fs) = Aborted OSError"
  shows "iterations (run_sending_process w cfg fs) \<noteq> [] \<and>
         Mark \<in> set (it_acts (last (iterations (run_sending_process w cfg fs)))) \<and>
         \<not> was_sent (it_before (last (iterations (run_sending_process w cfg fs))))
              (it_email (last (iterations (run_sending_process w cfg fs)))) \<and>
         (load (state_file_path (sender_email cfg)) (final_disk (run_sending_process w cfg fs)) =
            Inr (it_before (last (iterations (run_sending_process w cfg fs)))) \<or>
          load (state_file_path (sender_email cfg)) (final_disk (run_sending_process w cfg fs)) =
            Inl JSONDecodeError)"
proof (cases rule: run_cases [of w cfg fs])
  case not_started
  with assms show ?thesis by auto
next
  case (started rows m m')
  note nm = new_manager_Inr [OF started(3)]
  from nm have ld: "load (file_path m) (disk m) = Inr (state m)" by simp
  from started(4) assms have "sending_loop w (test_mode cfg) (blocked cfg) rows
      (last_index_sent (state m) + 1) [last_index_sent (state m) + 1 .. int (length rows) - 1] m =
      (iterations (run_sending_process w cfg fs), m', Aborted OSError)" by simp
  from loop_save_aborted [OF this ld] nm started(7) show ?thesis by simp
qed

lemma run_fault_fatal:
  assumes "it \<in> set (iterations (run_sending_process w cfg fs))"
    and "Mark \<in> set (it_acts it)" and "disk_fault w (it_pos it) = Some k" and "k < 6"
  shows "status (run_sending_process w cfg fs) = Aborted OSError \<and>
         last (iterations (run_sending_process w cfg fs)) = it"
  using assms(1)
proof (cases rule: run_iteration)
  case (1 st0 rows row mb ma ctl)
  from mark_sent_fault [OF assms(4)] assms(3)
  have r: "\<exists>m'. mark_sent (clock w (it_pos it)) (disk_fault w (it_pos it)) (it_pos it) (email row) mb =
      Raised OSError m'" by simp
  from 1(7) have "ctl = Stop (Aborted OSError)"
  proof (cases rule: process_row_cases)
    case marked
    with r show ?thesis by auto
  next
    case (mark_failed err)
    with r show ?thesis by auto
  qed (use assms(2) in simp_all)
  from 1(12) [OF this] show ?thesis by simp
qed

section \<open>Successive runs\<close>




section \<open>The file name of a sender\<close>

lemma sender_token_Nil: "sender_token [] = []"
  by (simp add: sender_token_def replace_char_def)

lemma replace_char_append:
  "replace_char c new (xs @ ys) = replace_char c new xs @ replace_char c new ys"
  by (simp add: replace_char_def)

lemma sender_token_Cons:
  "sender_token (c # cs) =
     (if c = CHR ''@'' then ''_at_'' else if c = CHR ''.'' then ''_'' else [c]) @ sender_token cs"
proof -
  have "replace_char CHR ''@'' ''_at_'' (c # cs) =
          (if c = CHR ''@'' then ''_at_'' else [c]) @ replace_char CHR ''@'' ''_at_'' cs"
    by (simp add: replace_char_def)
  then show ?thesis
    by (simp add: sender_token_def replace_char_append) (simp add: replace_char_def)
qed

lemma token_starts_at:
  assumes "plain_sender cs" and "take 3 (sender_token cs) = ''at_''"
  shows "take 2 cs = ''at'' \<and> take 1 (drop 2 cs) \<in> {''.'', ''@''}"
proof (cases cs)
  case Nil
  with assms(2) show ?thesis by (simp add: sender_token_Nil)
next
  case c1: (Cons x xs)
  with assms have x: "x = CHR ''a''" and t1: "take 2 (sender_token xs) = ''t_''"
    and p1: "plain_sender xs"
    by (auto simp: sender_token_Cons split: if_splits)
  show ?thesis
  proof (cases xs)
    case Nil
    with t1 show ?thesis by (simp add: sender_token_Nil)
  next
    case c2: (Cons y ys)
    with t1 p1 have y: "y = CHR ''t''" and t2: "take 1 (sender_token ys) = ''_''"
      and p2: "plain_sender ys"
      by (auto simp: sender_token_Cons split: if_splits)
    show ?thesis
    proof (cases ys)
      case Nil
      with t2 show ?thesis by (simp add: sender_token_Nil)
    next
      case (Cons z zs)
      with t2 p2 have "z = CHR ''.'' \<or> z = CHR ''@''"
        by (auto simp: sender_token_Cons split: if_splits)
      with c1 c2 Cons x y show ?thesis by auto
    qed
  qed
qed

lemma token_decode_token: "plain_sender s \<Longrightarrow> token_decode (sender_token s) = s"
proof (induction s)
  case Nil
  then show ?case by (simp add: sender_token_Nil)
next
  case (Cons c cs)
  then have ih: "token_decode (sender_token cs) = cs" and p: "plain_sender cs"
    and nu: "c \<noteq> CHR ''_''" by simp_all
  show ?case
  proof (cases "c = CHR ''@''")
    case True
    with ih show ?thesis by (simp add: sender_token_Cons)
  next
    case na: False
    show ?thesis
    proof (cases "c = CHR ''.''")
      case True
      with Cons.prems have "\<not> (take 2 cs = ''at'' \<and> take 1 (drop 2 cs) \<in> {''.'', ''@''})"
        by simp
      with token_starts_at [OF p] have "take 3 (sender_token cs) \<noteq> ''at_''" by blast
      with True ih show ?thesis by (simp add: sender_token_Cons)
    next
      case False
      with na nu ih show ?thesis by (simp add: sender_token_Cons)
    qed
  qed
qed

lemma sender_token_inj:
  "plain_sender s \<Longrightarrow> plain_sender t \<Longrightarrow> sender_token s = sender_token t \<Longrightarrow> s = t"
  by (metis token_decode_token)

lemma mark_sent_other_files:
  assumes "mark_sent now fault i e m = Returned m' \<or> mark_sent now fault i e m = Raised err m'"
    and "p \<noteq> file_path m"
  shows "disk m' p = disk m p"
  using assms mark_sent_Returned_load [of now fault i e m m']
    mark_sent_Raised_load [of now fault i e m err m'] by auto

section \<open>The example runs, evaluated\<close>

lemma example_run2_iterations:
  "iterations example_run2 =
     [\<lparr>it_pos = 2, it_email = ''c@spam.example'',
       it_before = \<lparr>last_index_sent = 1, sent_emails = [''a@x.org'', ''b@y.org''],
                    last_run_date = Some ''2026-01-01T00:00:00''\<rparr>,
       it_acts = [],
       it_after = \<lparr>last_index_sent = 1, sent_emails = [''a@x.org'', ''b@y.org''],
                   last_run_date = Some ''2026-01-01T00:00:00''\<rparr>\<rparr>,
      \<lparr>it_pos = 3, it_email = ''d@z.org'',
       it_before = \<lparr>last_index_sent = 1, sent_emails = [''a@x.org'', ''b@y.org''],
                    last_run_date = Some ''2026-01-01T00:00:00''\<rparr>,
       it_acts = [Generate, Deliver, Mark],
       it_after = \<lparr>last_index_sent = 3, sent_emails = [''a@x.org'', ''b@y.org'', ''d@z.org''],
                   last_run_date = Some ''2026-01-01T00:00:00''\<rparr>\<rparr>,
      \<lparr>it_pos = 4, it_email = ''A@X.ORG'',
       it_before = \<lparr>last_index_sent = 3, sent_emails = [''a@x.org'', ''b@y.org'', ''d@z.org''],
                    last_run_date = Some ''2026-01-01T00:00:00''\<rparr>,
       it_acts = [],
       it_after = \<lparr>last_index_sent = 3, sent_emails = [''a@x.org'', ''b@y.org'', ''d@z.org''],
                   last_run_date = Some ''2026-01-01T00:00:00''\<rparr>\<rparr>]"
  by code_simp

lemma example_dry_run_iterations:
  "iterations example_dry_run =
     [\<lparr>it_pos = 0, it_email = ''a@x.org'',
       it_before = \<lparr>last_index_sent = - 1, sent_emails = [], last_run_date = None\<rparr>,
       it_acts = [Generate],
       it_after = \<lparr>last_index_sent = - 1, sent_emails = [], last_run_date = None\<rparr>\<rparr>,
      \<lparr>it_pos = 1, it_email = ''B@y.org'',
       it_before = \<lparr>last_index_sent = - 1, sent_emails = [], last_run_date = None\<rparr>,
       it_acts = [Generate],
       it_after = \<lparr>last_index_sent = - 1, sent_emails = [], last_run_date = None\<rparr>\<rparr>,
      \<lparr>it_pos = 2, it_email = ''c@spam.example'',
       it_before = \<lparr>last_index_sent = - 1, sent_emails = [], last_run_date = None\<rparr>,
       it_acts = [],
       it_after = \<lparr>last_index_sent = - 1, sent_emails = [], last_run_date = None\<rparr>\<rparr>,
      \<lparr>it_pos = 3, it_email = ''d@z.org'',
       it_before = \<lparr>last_index_sent = - 1, sent_emails = [], last_run_date = None\<rparr>,
       it_acts = [Generate],
       it_after = \<lparr>last_index_sent = - 1, sent_emails = [], last_run_date = None\<rparr>\<rparr>]"
  by code_simp

lemma example_quota_run1_iterations:
  "iterations example_quota_run1 =
     [\<lparr>it_pos = 0, it_email = ''a@x.org'',
       it_before = \<lparr>last_index_sent = - 1, sent_emails = [], last_run_date = None\<rparr>,
       it_acts = [Generate, Deliver],
       it_after = \<lparr>last_index_sent = - 1, sent_emails = [], last_run_date = None\<rparr>\<rparr>,
      \<lparr>it_pos = 1, it_email = ''B@y.org'',
       it_before = \<lparr>last_index_sent = - 1, sent_emails = [], last_run_date = None\<rparr>,
       it_acts = [Generate, Deliver],
       it_after = \<lparr>last_index_sent = - 1, sent_emails = [], last_run_date = None\<rparr>\<rparr>]"
  by code_simp

lemma example_quota_run2_iterations:
  "iterations example_quota_run2 =
     [\<lparr>it_pos = 0, it_email = ''a@x.org'',
       it_before = \<lparr>last_index_sent = - 1, sent_emails = [], last_run_date = None\<rparr>,
       it_acts = [Generate, Deliver],
       it_after = \<lparr>last_index_sent = - 1, sent_emails = [], last_run_date = None\<rparr>\<rparr>,
      \<lparr>it_pos = 1, it_email = ''B@y.org'',
       it_before = \<lparr>last_index_sent = - 1, sent_emails = [], last_run_date = None\<rparr>,
       it_acts = [Generate, Deliver],
       it_after = \<lparr>last_index_sent = - 1, sent_emails = [], last_run_date = None\<rparr>\<rparr>]"
  by code_simp

lemma example_run2_loaded:
  "loaded_state example_run2 =
     Some \<lparr>last_index_sent = 1, sent_emails = [''a@x.org'', ''b@y.org''],
           last_run_date = Some ''2026-01-01T00:00:00''\<rparr>"
  by code_simp

lemma example_run1_status: "status example_run1 = Completed"
  by code_simp

lemma example_run1_final:
  "final_state example_run1 =
     Some \<lparr>last_index_sent = 1, sent_emails = [''a@x.org'', ''b@y.org''],
           last_run_date = Some ''2026-01-01T00:00:00''\<rparr>"
  by code_simp

lemma example_raise_run_iterations:
  "iterations example_raise_run =
     [\<lparr>it_pos = 0, it_email = ''a@x.org'',
       it_before = \<lparr>last_index_sent = - 1, sent_emails = [], last_run_date = None\<rparr>,
       it_acts = [Generate, Deliver, Mark],
       it_after = \<lparr>last_index_sent = 0, sent_emails = [''a@x.org''],
                   last_run_date = Some ''2026-01-01T00:00:00''\<rparr>\<rparr>,
      \<lparr>it_pos = 1, it_email = ''B@y.org'',
       it_before = \<lparr>last_index_sent = 0, sent_emails = [''a@x.org''],
                    last_run_date = Some ''2026-01-01T00:00:00''\<rparr>,
       it_acts = [Generate, Deliver],
       it_after = \<lparr>last_index_sent = 0, sent_emails = [''a@x.org''],
                   last_run_date = Some ''2026-01-01T00:00:00''\<rparr>\<rparr>]"
  by code_simp

lemma example_quota_run1_status: "status example_quota_run1 = Stopped_quota"
  by code_simp



lemma example_fault_run_status: "status example_fault_run = Aborted OSError"
  by code_simp

lemma example_fault_run_file:
  "final_disk example_fault_run (state_file_path ''me@mail.org'') = Some [Obj_open, Entry_index 1]"
  by code_simp

section \<open>Claim C1: a second run delivers nothing to recipients already sent\<close>

text \<open>
  C1. Take two runs in succession for the same configuration, the second on the disk the
  first has left, with any environments, and let \<open>st\<close> be the ledger the second run loads.
  Unless the first run died in a save, \<open>st\<close> is the ledger the first run ended with, and
  every recipient the first run marked is sent in it. Every position the second run
  reaches is after the cursor of \<open>st\<close>; and a recipient whose address is sent in \<open>st\<close> is
  still sent in the ledger when the loop reaches it, so that the iteration takes no action,
  neither generation nor delivery, and leaves the ledger as it was.
\<close>

theorem second_run_skips_sent:
  assumes "r1 = run_sending_process w1 cfg fs"
    and "r2 = run_sending_process w2 cfg (final_disk r1)"
    and "loaded_state r2 = Some st"
  shows "(status r1 \<noteq> Aborted OSError \<longrightarrow>
            final_state r1 = Some st \<and>
            (\<forall>it1\<in>set (iterations r1). Mark \<in> set (it_acts it1) \<longrightarrow> was_sent st (it_email it1))) \<and>
         (\<forall>it\<in>set (iterations r2).
            last_index_sent st < it_pos it \<and>
            (was_sent st (it_email it) \<longrightarrow>
               was_sent (it_before it) (it_email it) \<and> it_acts it = [] \<and>
               it_after it = it_before it))"
proof -
  let ?p = "state_file_path (sender_email cfg)"
  from assms(2,3) have ld2: "load ?p (final_disk r1) = Inr st"
    by (simp add: run_loaded_load)
  from assms(2,3) have a2: "authenticated cfg" "recipients cfg \<noteq> None"
    by (auto elim: run_started_final)
  have first: "final_state r1 = Some st \<and>
      (\<forall>it1\<in>set (iterations r1). Mark \<in> set (it_acts it1) \<longrightarrow> was_sent st (it_email it1))"
    if ok: "status r1 \<noteq> Aborted OSError"
  proof (cases "loaded_state r1")
    case None
    have "False"
    proof (cases rule: run_cases [of w1 cfg fs])
      case not_started
      with a2 ld2 assms(1) show False by auto
    next
      case (started rows m m')
      with None assms(1) show False by simp
    qed
    then show ?thesis ..
  next
    case (Some st0)
    from Some [unfolded assms(1)] show ?thesis
    proof (cases rule: run_started_final)
      case (1 fin)
      from 1(6) ok ld2 assms(1) have fin: "fin = st" by simp
      have "was_sent st (it_email it1)"
        if mem: "it1 \<in> set (iterations r1)" and mk: "Mark \<in> set (it_acts it1)" for it1
      proof -
        from mem [unfolded assms(1)] show ?thesis
        proof (cases rule: run_iteration)
          case (1 st0' rows row mb ma ctl)
          from process_row_marked_was_sent [OF 1(7) mk] 1(4,6)
          have "was_sent (it_after it1) (it_email it1)" by simp
          with \<open>\<And>it. it \<in> set (iterations (run_sending_process w1 cfg fs)) \<Longrightarrow> ledger_le (it_after it) fin\<close>
            mem fin assms(1) show ?thesis
            by (auto intro: was_sent_mono)
        qed
      qed
      with 1(4) fin assms(1) show ?thesis by simp
    qed
  qed
  have second: "last_index_sent st < it_pos it \<and>
      (was_sent st (it_email it) \<longrightarrow>
         was_sent (it_before it) (it_email it) \<and> it_acts it = [] \<and> it_after it = it_before it)"
    if mem: "it \<in> set (iterations r2)" for it
  proof -
    from mem [unfolded assms(2)] show ?thesis
    proof (cases rule: run_iteration)
      case (1 st0 rows row mb ma ctl)
      from 1(1) assms(2,3) have st0: "st0 = st" by simp
      have "was_sent (it_before it) (it_email it) \<and> it_acts it = [] \<and> it_after it = it_before it"
        if ws: "was_sent st (it_email it)"
      proof -
        from was_sent_mono [OF 1(10) [unfolded st0] ws]
        have b: "was_sent (it_before it) (it_email it)" .
        with 1(4,5,6,7) show ?thesis
          by (simp add: process_row_skip [of "blocked cfg" row mb])
      qed
      with 1(8) st0 show ?thesis by simp
    qed
  qed
  from first second show ?thesis by blast
qed

theorem second_run_skips_sent_witness:
  "loaded_state example_run2 =
     Some \<lparr>last_index_sent = 1, sent_emails = [''a@x.org'', ''b@y.org''],
           last_run_date = Some ''2026-01-01T00:00:00''\<rparr> \<and>
   status example_run1 \<noteq> Aborted OSError \<and>
   final_state example_run1 = loaded_state example_run2 \<and>
   iterations example_run2 ! 2 \<in> set (iterations example_run2) \<and>
   it_email (iterations example_run2 ! 2) = ''A@X.ORG'' \<and>
   was_sent \<lparr>last_index_sent = 1, sent_emails = [''a@x.org'', ''b@y.org''],
             last_run_date = Some ''2026-01-01T00:00:00''\<rparr> ''A@X.ORG'' \<and>
   it_acts (iterations example_run2 ! 2) = [] \<and>
   1 < it_pos (iterations example_run2 ! 2)"
proof -
  let ?st = "\<lparr>last_index_sent = 1, sent_emails = [''a@x.org'', ''b@y.org''],
             last_run_date = Some ''2026-01-01T00:00:00''\<rparr>"
  note t = second_run_skips_sent [OF example_run1_def example_run2_def example_run2_loaded]
  have ok: "status example_run1 \<noteq> Aborted OSError" by (simp add: example_run1_status)
  have m: "iterations example_run2 ! 2 \<in> set (iterations example_run2)"
    by (simp add: example_run2_iterations)
  have e: "it_email (iterations example_run2 ! 2) = ''A@X.ORG''"
    by (simp add: example_run2_iterations)
  have ws: "was_sent ?st ''A@X.ORG''" by code_simp
  from t ok have f: "final_state example_run1 = Some ?st" by blast
  from t m e ws have c: "it_acts (iterations example_run2 ! 2) = [] \<and>
      1 < it_pos (iterations example_run2 ! 2)" by fastforce
  from example_run2_loaded ok f m e ws c show ?thesis by simp
qed

section \<open>Claim C2: the quota stop\<close>

text \<open>
  The position at which the quota was met is not always the first one the next run
  evaluates. In the example the delivery at position 0 fails and the one at position 1
  meets the quota; nothing is marked, the cursor stays at -1, and the next run starts
  again at position 0, not at position 1.
\<close>

theorem quota_position_not_first_counterexample:
  "status example_quota_run1 = Stopped_quota \<and>
   it_pos (last (iterations example_quota_run1)) = 1 \<and>
   it_acts (last (iterations example_quota_run1)) = [Generate, Deliver] \<and>
   send_email (gmail_api (example_env api_quota_1 no_fault) 1 ''B@y.org'') = Inr Quota_error \<and>
   iterations example_quota_run2 \<noteq> [] \<and>
   it_pos (hd (iterations example_quota_run2)) = 0 \<and>
   it_pos (hd (iterations example_quota_run2)) \<noteq> it_pos (last (iterations example_quota_run1))"
  by (simp add: example_quota_run1_status example_quota_run1_iterations
      example_quota_run2_iterations example_env_def api_quota_1_def send_email_def)

text \<open>
  C2, amended. When the delivery for the recipient at position \<open>k\<close> returns the quota
  outcome, the run stops at once with status \<open>Stopped_quota\<close>: that iteration is the last
  one, no position greater than \<open>k\<close> is reached, \<^verbatim>\<open>mark_sent\<close> is not called for \<open>k\<close>, the
  ledger stays as it was, with its cursor below \<open>k\<close> and the address of \<open>k\<close> not sent. Any
  next run on the disk left behind loads that ledger. The positions it evaluates are an
  initial part of the range from cursor + 1 to the end of the table, in order; \<open>k\<close> lies in
  this range, so the run starts at cursor + 1, which is at most \<open>k\<close>, and reaches no
  position greater than \<open>k\<close> without having evaluated \<open>k\<close> again. It can end before \<open>k\<close>,
  when an earlier position stops it.
\<close>

theorem quota_stop:
  assumes "it \<in> set (iterations (run_sending_process w cfg fs))"
    and "Deliver \<in> set (it_acts it)"
    and "send_email (gmail_api w (it_pos it) (it_email it)) = Inr Quota_error"
  shows "status (run_sending_process w cfg fs) = Stopped_quota \<and>
         last (iterations (run_sending_process w cfg fs)) = it \<and>
         (\<forall>it'\<in>set (iterations (run_sending_process w cfg fs)). it_pos it' \<le> it_pos it) \<and>
         Mark \<notin> set (it_acts it) \<and> it_after it = it_before it \<and>
         final_state (run_sending_process w cfg fs) = Some (it_before it) \<and>
         last_index_sent (it_before it) < it_pos it \<and>
         \<not> was_sent (it_before it) (it_email it) \<and>
         (\<forall>w2. loaded_state (run_sending_process w2 cfg (final_disk (run_sending_process w cfg fs))) =
                  Some (it_before it) \<and>
               (iterations (run_sending_process w2 cfg (final_disk (run_sending_process w cfg fs))) \<noteq> [] \<longrightarrow>
                  it_pos (hd (iterations (run_sending_process w2 cfg
                     (final_disk (run_sending_process w cfg fs))))) =
                  last_index_sent (it_before it) + 1) \<and>
               (\<forall>it2\<in>set (iterations (run_sending_process w2 cfg
                     (final_disk (run_sending_process w cfg fs)))).
                  it_pos it < it_pos it2 \<longrightarrow>
                  it_pos it \<in> it_pos ` set (iterations (run_sending_process w2 cfg
                     (final_disk (run_sending_process w cfg fs))))) \<and>
               (\<exists>rows. recipients cfg = Some rows \<and>
                  it_pos it \<in> set [last_index_sent (it_before it) + 1 .. int (length rows) - 1] \<and>
                  prefix (map it_pos (iterations (run_sending_process w2 cfg
                       (final_disk (run_sending_process w cfg fs)))))
                    [last_index_sent (it_before it) + 1 .. int (length rows) - 1]))"
  using assms(1)
proof (cases rule: run_iteration)
  case (1 st0 rows row mb ma ctl)
  let ?r = "run_sending_process w cfg fs"
  let ?p = "state_file_path (sender_email cfg)"
  from assms(3) 1(4) have s: "send_email (gmail_api w (it_pos it) (email row)) = Inr Quota_error"
    by simp
  then have "send_email (gmail_api w (it_pos it) (email row)) \<noteq> Inr Send_true" by simp
  from process_row_stop_unmarked [OF 1(7) assms(2) this] s
  have u: "ma = mb" "Mark \<notin> set (it_acts it)" "\<not> was_sent (state mb) (email row)"
    "ctl = Stop Stopped_quota" by simp_all
  from 1(12) [OF u(4)] u(1) 1(5)
  have fin: "status ?r = Stopped_quota" "final_state ?r = Some (it_before it)"
    "last (iterations ?r) = it" by simp_all
  from 1(1) obtain rows' where pr: "recipients cfg = Some rows'"
    "prefix (map it_pos (iterations ?r)) [last_index_sent st0 + 1 .. int (length rows') - 1]"
    by (rule run_positions)
  have le: "it_pos it' \<le> it_pos it" if "it' \<in> set (iterations ?r)" for it'
  proof -
    from that have ne: "iterations ?r \<noteq> []" by auto
    from that have "it_pos it' \<in> set (map it_pos (iterations ?r))" by simp
    from prefix_sorted_last [OF pr(2) _ this] sorted_wrt_less_upto [of "last_index_sent st0"]
    have "it_pos it' \<le> last (map it_pos (iterations ?r))" by simp
    also have "\<dots> = it_pos (last (iterations ?r))" using ne by (rule last_map)
    finally show ?thesis using fin(3) by simp
  qed
  from fin(1) have "status ?r \<noteq> Aborted OSError" by simp
  from run_final_load [OF 1(1) this] fin(2)
  have f: "authenticated cfg" and ld: "load ?p (final_disk ?r) = Inr (it_before it)"
    by auto
  have next_run: "loaded_state (run_sending_process w2 cfg (final_disk ?r)) = Some (it_before it) \<and>
      (iterations (run_sending_process w2 cfg (final_disk ?r)) \<noteq> [] \<longrightarrow>
         it_pos (hd (iterations (run_sending_process w2 cfg (final_disk ?r)))) =
         last_index_sent (it_before it) + 1) \<and>
      (\<forall>it2\<in>set (iterations (run_sending_process w2 cfg (final_disk ?r))).
         it_pos it < it_pos it2 \<longrightarrow>
         it_pos it \<in> it_pos ` set (iterations (run_sending_process w2 cfg (final_disk ?r)))) \<and>
      (\<exists>rows. recipients cfg = Some rows \<and>
         it_pos it \<in> set [last_index_sent (it_before it) + 1 .. int (length rows) - 1] \<and>
         prefix (map it_pos (iterations (run_sending_process w2 cfg (final_disk ?r))))
           [last_index_sent (it_before it) + 1 .. int (length rows) - 1])" for w2
  proof -
    let ?r2 = "run_sending_process w2 cfg (final_disk ?r)"
    have l2: "loaded_state ?r2 = Some (it_before it)"
    proof (cases rule: run_cases [of w2 cfg "final_disk ?r"])
      case not_started
      with f 1(2) ld show ?thesis by auto
    next
      case (started rows2 m2 m2')
      from new_manager_Inr [OF started(3)] ld started(5) show ?thesis by simp
    qed
    from l2 obtain rows2 where pr2: "recipients cfg = Some rows2"
      "prefix (map it_pos (iterations ?r2)) [last_index_sent (it_before it) + 1 .. int (length rows2) - 1]"
      by (rule run_positions)
    have h: "it_pos (hd (iterations ?r2)) = last_index_sent (it_before it) + 1"
      if "iterations ?r2 \<noteq> []"
      using prefix_upto_hd [OF pr2(2)] that by (simp add: hd_map)
    have k: "it_pos it \<in> it_pos ` set (iterations ?r2)"
      if "it2 \<in> set (iterations ?r2)" "it_pos it < it_pos it2" for it2
    proof -
      from that(1) have "it_pos it2 \<in> set (map it_pos (iterations ?r2))" by simp
      from prefix_upto [OF pr2(2) this, of "it_pos it"] 1(11) that(2)
      show ?thesis by simp
    qed
    from pr2(1) 1(2) have rows2: "rows2 = rows" by simp
    from 1(9,11) have "it_pos it \<in> set [last_index_sent (it_before it) + 1 .. int (length rows) - 1]"
      by simp
    with pr2 rows2 have r: "\<exists>rows. recipients cfg = Some rows \<and>
         it_pos it \<in> set [last_index_sent (it_before it) + 1 .. int (length rows) - 1] \<and>
         prefix (map it_pos (iterations ?r2))
           [last_index_sent (it_before it) + 1 .. int (length rows) - 1]"
      by blast
    from l2 h k r show ?thesis by blast
  qed
  from fin le u 1(4,5,6,11) next_run show ?thesis by simp
qed

theorem quota_stop_witness:
  "iterations example_quota_run1 ! 1 \<in> set (iterations example_quota_run1) \<and>
   Deliver \<in> set (it_acts (iterations example_quota_run1 ! 1)) \<and>
   send_email (gmail_api (example_env api_quota_1 no_fault)
     (it_pos (iterations example_quota_run1 ! 1)) (it_email (iterations example_quota_run1 ! 1))) =
     Inr Quota_error \<and>
   status example_quota_run1 = Stopped_quota \<and>
   final_state example_quota_run1 = Some (it_before (iterations example_quota_run1 ! 1)) \<and>
   loaded_state example_quota_run2 = Some (it_before (iterations example_quota_run1 ! 1)) \<and>
   it_pos (hd (iterations example_quota_run2)) =
     last_index_sent (it_before (iterations example_quota_run1 ! 1)) + 1"
proof -
  have m: "iterations example_quota_run1 ! 1 \<in> set (iterations example_quota_run1)"
    and d: "Deliver \<in> set (it_acts (iterations example_quota_run1 ! 1))"
    and q: "send_email (gmail_api (example_env api_quota_1 no_fault)
       (it_pos (iterations example_quota_run1 ! 1)) (it_email (iterations example_quota_run1 ! 1))) =
       Inr Quota_error"
    by (simp_all add: example_quota_run1_iterations example_env_def api_quota_1_def send_email_def)
  note t = quota_stop [OF m [unfolded example_quota_run1_def] d [unfolded example_quota_run1_def]
      q [unfolded example_quota_run1_def], folded example_quota_run1_def]
  have ne: "iterations example_quota_run2 \<noteq> []"
    by (simp add: example_quota_run2_iterations)
  from t have 1: "status example_quota_run1 = Stopped_quota"
    and 2: "final_state example_quota_run1 = Some (it_before (iterations example_quota_run1 ! 1))"
    by blast+
  from t have "loaded_state (run_sending_process (example_env api_quota_1 no_fault)
        (example_config False) (final_disk example_quota_run1)) =
      Some (it_before (iterations example_quota_run1 ! 1)) \<and>
    (iterations (run_sending_process (example_env api_quota_1 no_fault)
        (example_config False) (final_disk example_quota_run1)) \<noteq> [] \<longrightarrow>
     it_pos (hd (iterations (run_sending_process (example_env api_quota_1 no_fault)
        (example_config False) (final_disk example_quota_run1)))) =
     last_index_sent (it_before (iterations example_quota_run1 ! 1)) + 1)"
    by blast
  with ne have 3: "loaded_state example_quota_run2 = Some (it_before (iterations example_quota_run1 ! 1))"
    and 4: "it_pos (hd (iterations example_quota_run2)) =
     last_index_sent (it_before (iterations example_quota_run1 ! 1)) + 1"
    by (simp_all add: example_quota_run2_def)
  from m d q 1 2 3 4 show ?thesis by blast
qed

section \<open>Claim C3: what mark_sent leaves behind\<close>

text \<open>
  An address that \<^verbatim>\<open>mark_sent\<close> has recorded is not always found after a reload. The
  call for \<^verbatim>\<open>a@x.org\<close> returns and the address is sent; a later call for another
  address stops in its save when the file has been emptied. The address is still sent
  in memory, but the file no longer loads, and the constructor of a new manager for the
  same sender raises.
\<close>

theorem reload_after_torn_save_counterexample:
  "mark_sent ''2026-01-01T00:00:00'' None 0 ''a@x.org'' example_manager = Returned example_saved \<and>
   was_sent (state example_saved) ''a@x.org'' \<and>
   file_path example_saved = state_file_path ''me@mail.org'' \<and>
   (case mark_sent ''2026-01-02T00:00:00'' (Some 1) 1 ''b@y.org'' example_saved of
      Raised err m' \<Rightarrow>
        was_sent (state m') ''a@x.org'' \<and>
        disk m' (state_file_path ''me@mail.org'') = Some [] \<and>
        (case new_manager ''me@mail.org'' (disk m') of
           Inl e \<Rightarrow> e = JSONDecodeError
         | Inr m2 \<Rightarrow> False)
    | Returned m' \<Rightarrow> False)"
proof -
  have 1: "mark_sent ''2026-01-01T00:00:00'' None 0 ''a@x.org'' example_manager = Returned example_saved"
    by (simp add: example_saved_def mark_sent_def save_def Let_def)
  have 2: "was_sent (state example_saved) ''a@x.org''"
    "file_path example_saved = state_file_path ''me@mail.org''"
    by code_simp+
  have 3: "(case mark_sent ''2026-01-02T00:00:00'' (Some 1) 1 ''b@y.org'' example_saved of
      Raised err m' \<Rightarrow>
        was_sent (state m') ''a@x.org'' \<and>
        disk m' (state_file_path ''me@mail.org'') = Some [] \<and>
        (case new_manager ''me@mail.org'' (disk m') of
           Inl e \<Rightarrow> e = JSONDecodeError
         | Inr m2 \<Rightarrow> False)
    | Returned m' \<Rightarrow> False)"
    by code_simp
  from 1 2 3 show ?thesis by blast
qed

text \<open>
  C3, amended. When \<open>mark_sent now fault p e\<close> returns: the cursor is \<open>p\<close>, whatever it was
  before; the lower-cased \<open>e\<close> is among the sent addresses compared without case, having
  been appended exactly when \<open>was_sent\<close> did not hold of \<open>e\<close> before, and it is literally in
  the list when the entries of the list were lower-cased before, which they then remain;
  the date is the time read by the save; the file of the manager holds the complete dump
  of the new state, so that loading it gives that state back, and a new manager for the
  same sender on that disk loads the state and finds \<open>e\<close> sent. After any later calls of
  \<^verbatim>\<open>mark_sent\<close> on the manager, \<open>was_sent\<close> still holds of \<open>e\<close> in memory. When all of them
  returned, the file holds the state in memory and a new manager for the sender finds \<open>e\<close>
  sent. When one of them raised, the file either does not load, and the constructor of a
  new manager raises, or it loads with \<open>e\<close> sent: a reload never gives a ledger in which
  \<open>e\<close> is not sent.
\<close>

theorem mark_sent_returns:
  assumes "mark_sent now fault p e m = Returned m'"
  shows "last_index_sent (state m') = p \<and>
         lower e \<in> set (map lower (sent_emails (state m'))) \<and>
         sent_emails (state m') =
           (if was_sent (state m) e then sent_emails (state m)
            else sent_emails (state m) @ [lower e]) \<and>
         ((\<forall>x\<in>set (sent_emails (state m)). lower x = x) \<longrightarrow>
            lower e \<in> set (sent_emails (state m')) \<and>
            (\<forall>x\<in>set (sent_emails (state m')). lower x = x)) \<and>
         last_run_date (state m') = Some now \<and>
         file_path m' = file_path m \<and>
         disk m' (file_path m) = Some (json_dump (state m')) \<and>
         load (file_path m) (disk m') = Inr (state m') \<and>
         was_sent (state m') e \<and>
         (\<forall>sender. file_path m = state_file_path sender \<longrightarrow>
            (\<exists>m2. new_manager sender (disk m') = Inr m2 \<and> state m2 = state m' \<and>
               was_sent (state m2) e)) \<and>
         (\<forall>calls m''. mark_all calls m' = Returned m'' \<longrightarrow>
            was_sent (state m'') e \<and> load (file_path m) (disk m'') = Inr (state m'') \<and>
            (\<forall>sender. file_path m = state_file_path sender \<longrightarrow>
               (\<exists>m2. new_manager sender (disk m'') = Inr m2 \<and> was_sent (state m2) e))) \<and>
         (\<forall>calls err m''. mark_all calls m' = Raised err m'' \<longrightarrow>
            was_sent (state m'') e \<and>
            (load (file_path m) (disk m'') = Inl JSONDecodeError \<or>
             (\<exists>st. load (file_path m) (disk m'') = Inr st \<and> was_sent st e)) \<and>
            (\<forall>sender. file_path m = state_file_path sender \<longrightarrow>
               new_manager sender (disk m'') = Inl JSONDecodeError \<or>
               (\<exists>m2. new_manager sender (disk m'') = Inr m2 \<and> was_sent (state m2) e)))"
proof -
  note st = mark_sent_state [OF disjI1, OF assms]
  note dk = mark_sent_disk [OF assms]
  note ld = mark_sent_Returned_load [OF assms]
  from st have ws: "was_sent (state m') e"
    by (simp add: was_sent_date was_sent_record_sent)
  from st have em: "sent_emails (state m') =
           (if was_sent (state m) e then sent_emails (state m)
            else sent_emails (state m) @ [lower e])"
    by (simp add: record_sent_emails)
  from ws have mem: "lower e \<in> set (map lower (sent_emails (state m')))"
    by (simp add: was_sent_def)
  have norm: "lower e \<in> set (sent_emails (state m')) \<and>
            (\<forall>x\<in>set (sent_emails (state m')). lower x = x)"
    if "\<forall>x\<in>set (sent_emails (state m)). lower x = x"
    using record_sent_lower_mem [OF that, of e p] st by simp
  from ld st have ld': "load (file_path m') (disk m') = Inr (state m')" by simp
  have reload: "\<exists>m2. new_manager sender (disk m') = Inr m2 \<and> state m2 = state m' \<and>
               was_sent (state m2) e"
    if "file_path m = state_file_path sender" for sender
    using that ld ws by (simp add: new_manager_def Let_def)
  have later: "was_sent (state m'') e \<and> load (file_path m) (disk m'') = Inr (state m'') \<and>
            (\<forall>sender. file_path m = state_file_path sender \<longrightarrow>
               (\<exists>m2. new_manager sender (disk m'') = Inr m2 \<and> was_sent (state m2) e))"
    if "mark_all calls m' = Returned m''" for calls m''
  proof -
    from mark_all_keeps [OF that ws ld'] st
    have a: "was_sent (state m'') e" "load (file_path m) (disk m'') = Inr (state m'')"
      by auto
    then show ?thesis by (auto simp: new_manager_def Let_def)
  qed
  have raised: "was_sent (state m'') e \<and>
            (load (file_path m) (disk m'') = Inl JSONDecodeError \<or>
             (\<exists>st. load (file_path m) (disk m'') = Inr st \<and> was_sent st e)) \<and>
            (\<forall>sender. file_path m = state_file_path sender \<longrightarrow>
               new_manager sender (disk m'') = Inl JSONDecodeError \<or>
               (\<exists>m2. new_manager sender (disk m'') = Inr m2 \<and> was_sent (state m2) e))"
    if "mark_all calls m' = Raised err m''" for calls err m''
  proof -
    from mark_all_raised [OF that ws ld'] st
    have a: "was_sent (state m'') e"
      "load (file_path m) (disk m'') = Inl JSONDecodeError \<or>
             (\<exists>st. load (file_path m) (disk m'') = Inr st \<and> was_sent st e)"
      by auto
    have "new_manager sender (disk m'') = Inl JSONDecodeError \<or>
               (\<exists>m2. new_manager sender (disk m'') = Inr m2 \<and> was_sent (state m2) e)"
      if "file_path m = state_file_path sender" for sender
      using a(2) that by (auto simp: new_manager_def Let_def)
    with a show ?thesis by blast
  qed
  have idx: "last_index_sent (state m') = p" and dt: "last_run_date (state m') = Some now"
    and fp: "file_path m' = file_path m"
    using st by (simp_all add: record_sent_index)
  have dsk: "disk m' (file_path m) = Some (json_dump (state m'))"
    using dk by simp
  from idx mem em norm dt fp dsk ld ws reload later raised show ?thesis
    by blast
qed

theorem mark_sent_returns_witness:
  "(case mark_sent ''2026-01-01T00:00:00'' None 7 ''A@x.org'' example_manager of
      Returned m' \<Rightarrow>
        last_index_sent (state m') = 7 \<and>
        sent_emails (state m') = [''a@x.org''] \<and>
        last_run_date (state m') = Some ''2026-01-01T00:00:00'' \<and>
        was_sent (state m') ''A@x.org'' \<and>
        load (state_file_path ''me@mail.org'') (disk m') = Inr (state m')
    | Raised err m' \<Rightarrow> False)"
proof -
  obtain m' where r: "mark_sent ''2026-01-01T00:00:00'' None 7 ''A@x.org'' example_manager = Returned m'"
    by (simp add: mark_sent_def save_def Let_def)
  note t = mark_sent_returns [OF r]
  have fp: "file_path example_manager = state_file_path ''me@mail.org''"
    by (simp add: example_manager_def)
  have n: "\<not> was_sent (state example_manager) ''A@x.org''"
    by (simp add: example_manager_def default_state_def was_sent_def)
  have l: "lower ''A@x.org'' = ''a@x.org''" by code_simp
  have s: "sent_emails (state example_manager) = []"
    by (simp add: example_manager_def default_state_def)
  from t n l s have 1: "sent_emails (state m') = [''a@x.org'']" by simp
  from t fp have 2: "last_index_sent (state m') = 7"
    "last_run_date (state m') = Some ''2026-01-01T00:00:00''"
    "was_sent (state m') ''A@x.org''"
    "load (state_file_path ''me@mail.org'') (disk m') = Inr (state m')"
    by simp_all
  from 1 2 show ?thesis by (simp add: r)
qed

section \<open>Claim C4: a blocked or already sent recipient is left alone\<close>

text \<open>
  C4. In every run, for every recipient reached by the loop (an iteration, with the address
  of the row at its position and the ledger in memory at that moment): if the address is
  blocked, or \<open>was_sent\<close> holds of it in that ledger, the iteration takes no action at all,
  neither content generation nor delivery nor \<^verbatim>\<open>mark_sent\<close>, and leaves the ledger as it
  was. In particular a recipient whose domain, the part of the normalised address after
  its last \<^verbatim>\<open>@\<close>, is in the blocked domains never reaches the content generator.
\<close>

theorem skipped_recipient_untouched:
  assumes "it \<in> set (iterations (run_sending_process w cfg fs))"
  shows "(\<exists>rows row. recipients cfg = Some rows \<and> iloc rows (it_pos it) = Inr row \<and>
            it_email it = email row) \<and>
         (is_blocked (blocked cfg) (it_email it) \<or> was_sent (it_before it) (it_email it) \<longrightarrow>
            it_acts it = [] \<and> it_after it = it_before it) \<and>
         (CHR ''@'' \<in> set (normalize_email (it_email it)) \<and>
          after_last_at (normalize_email (it_email it)) \<in> set (blocked_domains (blocked cfg)) \<longrightarrow>
            Generate \<notin> set (it_acts it))"
  using assms
proof (cases rule: run_iteration)
  case (1 st0 rows row mb ma ctl)
  have skip: "it_acts it = [] \<and> it_after it = it_before it"
    if "is_blocked (blocked cfg) (it_email it) \<or> was_sent (it_before it) (it_email it)"
    using that 1(4,5,6,7)
    by (simp add: process_row_skip [of "blocked cfg" row mb])
  have "is_blocked (blocked cfg) (it_email it)"
    if "CHR ''@'' \<in> set (normalize_email (it_email it)) \<and>
        after_last_at (normalize_email (it_email it)) \<in> set (blocked_domains (blocked cfg))"
    using that by (simp add: is_blocked_spec spec_domain_def)
  with skip 1(2,3,4) show ?thesis by auto
qed

theorem skipped_recipient_untouched_witness:
  "iterations example_run2 ! 0 \<in> set (iterations example_run2) \<and>
   it_email (iterations example_run2 ! 0) = ''c@spam.example'' \<and>
   is_blocked (blocked (example_config False)) (it_email (iterations example_run2 ! 0)) \<and>
   it_acts (iterations example_run2 ! 0) = [] \<and>
   iterations example_run2 ! 2 \<in> set (iterations example_run2) \<and>
   it_email (iterations example_run2 ! 2) = ''A@X.ORG'' \<and>
   was_sent (it_before (iterations example_run2 ! 2)) (it_email (iterations example_run2 ! 2)) \<and>
   it_acts (iterations example_run2 ! 2) = [] \<and>
   it_after (iterations example_run2 ! 2) = it_before (iterations example_run2 ! 2)"
proof -
  have m: "iterations example_run2 ! 0 \<in> set (iterations example_run2)"
    "iterations example_run2 ! 2 \<in> set (iterations example_run2)"
    by (simp_all add: example_run2_iterations)
  have e: "it_email (iterations example_run2 ! 0) = ''c@spam.example''"
    "it_email (iterations example_run2 ! 2) = ''A@X.ORG''"
    by (simp_all add: example_run2_iterations)
  have h: "is_blocked (blocked (example_config False)) (it_email (iterations example_run2 ! 0))"
    "was_sent (it_before (iterations example_run2 ! 2)) (it_email (iterations example_run2 ! 2))"
    unfolding example_run2_iterations by code_simp+
  note t0 = skipped_recipient_untouched [OF m(1) [unfolded example_run2_def], folded example_run2_def]
  note t2 = skipped_recipient_untouched [OF m(2) [unfolded example_run2_def], folded example_run2_def]
  from t0 h(1) have c0: "it_acts (iterations example_run2 ! 0) = []"
    by (simp add: example_config_def)
  from t2 h(2) have c2: "it_acts (iterations example_run2 ! 2) = [] \<and>
      it_after (iterations example_run2 ! 2) = it_before (iterations example_run2 ! 2)"
    by blast
  from m e h c0 c2 show ?thesis by blast
qed

section \<open>Claim C5: a save that does not complete\<close>

text \<open>
  \<^verbatim>\<open>mark_sent\<close> is not atomic with respect to a crash. The ledger file holds the complete
  state of position 0; the save for position 1 stops when the file has been opened for
  writing, and thereby emptied, and nothing has been written yet. The file is then
  neither the prior dump nor the new one, and it does not load. The same happens inside
  a run whose save stops after two pieces: the run is aborted and leaves a torn file.
\<close>

theorem mark_sent_torn_counterexample:
  "(case mark_sent ''2026-01-02T00:00:00'' (Some 1) 1 ''b@y.org'' example_saved of
      Raised err m' \<Rightarrow>
        load (file_path example_saved) (disk example_saved) = Inr (state example_saved) \<and>
        disk m' (file_path example_saved) = Some [] \<and>
        disk m' (file_path example_saved) \<noteq> disk example_saved (file_path example_saved) \<and>
        disk m' (file_path example_saved) \<noteq> Some (json_dump (state m')) \<and>
        load (file_path example_saved) (disk m') = Inl JSONDecodeError
    | Returned m' \<Rightarrow> False) \<and>
   status example_fault_run = Aborted OSError \<and>
   final_disk example_fault_run (state_file_path ''me@mail.org'') = Some [Obj_open, Entry_index 1] \<and>
   load (state_file_path ''me@mail.org'') (final_disk example_fault_run) = Inl JSONDecodeError"
proof -
  have 1: "(case mark_sent ''2026-01-02T00:00:00'' (Some 1) 1 ''b@y.org'' example_saved of
      Raised err m' \<Rightarrow>
        load (file_path example_saved) (disk example_saved) = Inr (state example_saved) \<and>
        disk m' (file_path example_saved) = Some [] \<and>
        disk m' (file_path example_saved) \<noteq> disk example_saved (file_path example_saved) \<and>
        disk m' (file_path example_saved) \<noteq> Some (json_dump (state m')) \<and>
        load (file_path example_saved) (disk m') = Inl JSONDecodeError
    | Returned m' \<Rightarrow> False)"
    by code_simp
  have 2: "load (state_file_path ''me@mail.org'') (final_disk example_fault_run) = Inl JSONDecodeError"
    by (simp add: load_def example_fault_run_file)
  from 1 2 example_fault_run_status example_fault_run_file show ?thesis by simp
qed

text \<open>
  C5, amended. \<^verbatim>\<open>mark_sent\<close> writes the ledger file in place. When it returns, the file
  holds the complete dump of the updated state. When its save stops after \<open>k\<close> disk
  operations, an \<^verbatim>\<open>OSError\<close> is raised; for \<open>k = 0\<close> the disk is as it was, with the complete
  prior state, and for \<open>k > 0\<close> the file holds the first \<open>k - 1\<close> pieces of the new dump, a
  partial write which does not load. The error is fatal: in a run, the iteration whose
  save stops is the last one and the run is aborted with that error. After a run
  aborted in this way, the last iteration is one that called \<^verbatim>\<open>mark_sent\<close> for a recipient
  not sent in the ledger before it, and the ledger file either holds that prior ledger,
  in which the recipient is not sent, or does not load: no reload reports the recipient
  as sent.
\<close>

theorem mark_sent_crash_states:
  "(\<forall>m'. mark_sent now fault i e m = Returned m' \<longrightarrow>
      disk m' = (disk m)(file_path m \<mapsto> json_dump (state m')) \<and>
      load (file_path m) (disk m') = Inr (state m')) \<and>
   (\<forall>err m'. mark_sent now fault i e m = Raised err m' \<longrightarrow>
      err = OSError \<and>
      (\<exists>k<6. fault = Some k \<and> (k = 0 \<longrightarrow> disk m' = disk m) \<and>
         (0 < k \<longrightarrow>
            disk m' = (disk m)(file_path m \<mapsto> take (k - 1) (json_dump (state m'))) \<and>
            load (file_path m) (disk m') = Inl JSONDecodeError))) \<and>
   (\<forall>it\<in>set (iterations (run_sending_process w cfg fs)). \<forall>k<6.
      Mark \<in> set (it_acts it) \<and> disk_fault w (it_pos it) = Some k \<longrightarrow>
        status (run_sending_process w cfg fs) = Aborted OSError \<and>
        last (iterations (run_sending_process w cfg fs)) = it) \<and>
   (status (run_sending_process w cfg fs) = Aborted OSError \<longrightarrow>
      iterations (run_sending_process w cfg fs) \<noteq> [] \<and>
      Mark \<in> set (it_acts (last (iterations (run_sending_process w cfg fs)))) \<and>
      \<not> was_sent (it_before (last (iterations (run_sending_process w cfg fs))))
           (it_email (last (iterations (run_sending_process w cfg fs)))) \<and>
      (load (state_file_path (sender_email cfg)) (final_disk (run_sending_process w cfg fs)) =
         Inr (it_before (last (iterations (run_sending_process w cfg fs)))) \<or>
       load (state_file_path (sender_email cfg)) (final_disk (run_sending_process w cfg fs)) =
         Inl JSONDecodeError))"
proof -
  have 1: "disk m' = (disk m)(file_path m \<mapsto> json_dump (state m')) \<and>
      load (file_path m) (disk m') = Inr (state m')"
    if "mark_sent now fault i e m = Returned m'" for m'
    using mark_sent_disk [OF that] mark_sent_Returned_load [OF that] by simp
  note 2 = mark_sent_Raised_states [of now fault i e m]
  note 3 = run_fault_fatal [of _ w cfg fs]
  note 4 = run_save_aborted [of w cfg fs]
  from 1 2 3 4 show ?thesis by blast
qed

theorem mark_sent_crash_states_witness:
  "status example_fault_run = Aborted OSError \<and>
   iterations example_fault_run \<noteq> [] \<and>
   Mark \<in> set (it_acts (last (iterations example_fault_run))) \<and>
   \<not> was_sent (it_before (last (iterations example_fault_run)))
        (it_email (last (iterations example_fault_run))) \<and>
   load (state_file_path ''me@mail.org'') (final_disk example_fault_run) = Inl JSONDecodeError"
proof -
  note t = mark_sent_crash_states [of "''t''" None 0 "''a@x.org''" example_manager
      "example_env api_ok fault_at_1" "example_config False" Map.empty,
      folded example_fault_run_def]
  from t example_fault_run_status
  have a: "iterations example_fault_run \<noteq> [] \<and>
      Mark \<in> set (it_acts (last (iterations example_fault_run))) \<and>
      \<not> was_sent (it_before (last (iterations example_fault_run)))
        (it_email (last (iterations example_fault_run)))"
    by blast
  have l: "load (state_file_path ''me@mail.org'') (final_disk example_fault_run) = Inl JSONDecodeError"
    by (simp add: load_def example_fault_run_file)
  from a l example_fault_run_status show ?thesis by blast
qed

section \<open>Claim C6: the ledger file of a sender\<close>

text \<open>
  The file name is not injective on senders: the dot and the underscore are both written
  as an underscore, so that \<^verbatim>\<open>a.b@x.org\<close> and \<^verbatim>\<open>a_b@x.org\<close> share one ledger file.
\<close>

theorem state_file_path_collision_counterexample:
  "''a.b@x.org'' \<noteq> ''a_b@x.org'' \<and>
   state_file_path ''a.b@x.org'' = ''state_a_b_at_x_org.json'' \<and>
   state_file_path ''a_b@x.org'' = ''state_a_b_at_x_org.json'' \<and>
   state_file_path ''a.b@x.org'' = state_file_path ''a_b@x.org''"
  by (simp add: state_file_path_def sender_token_def replace_char_def)

text \<open>
  C6, amended. The file name is a function of the sender alone: every manager built for a
  sender has the path \<open>state_file_path\<close> of that sender, whatever the disk. It is
  injective on the senders that contain no underscore and in which no dot is directly
  followed by \<^verbatim>\<open>at.\<close> or \<^verbatim>\<open>at@\<close>: two different senders of this kind have different files,
  and a call of \<^verbatim>\<open>mark_sent\<close> by the manager of one, whether it returns or raises, leaves
  the file of the other as it was.
\<close>

theorem state_file_path_plain_injective:
  "(plain_sender s \<and> plain_sender t \<and> state_file_path s = state_file_path t \<longrightarrow> s = t) \<and>
   (\<forall>fs m. new_manager s fs = Inr m \<longrightarrow> file_path m = state_file_path s) \<and>
   (plain_sender s \<and> plain_sender t \<and> s \<noteq> t \<longrightarrow>
      (\<forall>now fault i e m m' err.
         file_path m = state_file_path s \<and>
         (mark_sent now fault i e m = Returned m' \<or> mark_sent now fault i e m = Raised err m') \<longrightarrow>
           disk m' (state_file_path t) = disk m (state_file_path t)))"
proof -
  have inj: "s = t" if "plain_sender s" "plain_sender t" "state_file_path s = state_file_path t"
    using that by (simp add: state_file_path_def sender_token_inj)
  have det: "file_path m = state_file_path s" if "new_manager s fs = Inr m" for fs m
    using new_manager_Inr [OF that] by simp
  have sep: "disk m' (state_file_path t) = disk m (state_file_path t)"
    if "plain_sender s" "plain_sender t" "s \<noteq> t" "file_path m = state_file_path s"
      "mark_sent now fault i e m = Returned m' \<or> mark_sent now fault i e m = Raised err m'"
    for now fault i e m m' err
  proof -
    from inj that(1,2,3) have "state_file_path t \<noteq> file_path m"
      using that(4) by auto
    from mark_sent_other_files [OF that(5) this] show ?thesis .
  qed
  from inj det sep show ?thesis by blast
qed

theorem state_file_path_plain_injective_witness:
  "plain_sender ''a.b@x.org'' \<and> plain_sender ''ab@x.org'' \<and> ''a.b@x.org'' \<noteq> ''ab@x.org'' \<and>
   state_file_path ''a.b@x.org'' \<noteq> state_file_path ''ab@x.org''"
proof -
  have p: "plain_sender ''a.b@x.org''" "plain_sender ''ab@x.org''" by simp_all
  have n: "''a.b@x.org'' \<noteq> ''ab@x.org''" by simp
  from state_file_path_plain_injective [of "''a.b@x.org''" "''ab@x.org''"] p n
  have "state_file_path ''a.b@x.org'' \<noteq> state_file_path ''ab@x.org''" by blast
  with p n show ?thesis by blast
qed

section \<open>Claim C7: the cursor never decreases and the sent addresses only grow\<close>



section \<open>Claim C8: a dry run delivers nothing and records nothing\<close>

text \<open>
  C8. In test mode, for every recipients table, environment and disk, no iteration calls
  the delivery transport or \<^verbatim>\<open>mark_sent\<close>, every iteration leaves the ledger in memory as
  it was, and after the run the disk is the disk before it and the ledger in memory is
  the ledger that was loaded.
\<close>

theorem dry_run_no_delivery:
  assumes "test_mode cfg"
  shows "(\<forall>it\<in>set (iterations (run_sending_process w cfg fs)).
            Deliver \<notin> set (it_acts it) \<and> Mark \<notin> set (it_acts it) \<and>
            it_after it = it_before it) \<and>
         final_disk (run_sending_process w cfg fs) = fs \<and>
         final_state (run_sending_process w cfg fs) = loaded_state (run_sending_process w cfg fs)"
proof (cases rule: run_cases [of w cfg fs])
  case not_started
  then show ?thesis by simp
next
  case (started rows m m')
  from started(4) assms have "sending_loop w True (blocked cfg) rows (last_index_sent (state m) + 1)
         [last_index_sent (state m) + 1 .. int (length rows) - 1] m =
       (iterations (run_sending_process w cfg fs), m', status (run_sending_process w cfg fs))"
    by simp
  from loop_test_mode [OF this] new_manager_Inr [OF started(3)] started(5,6,7)
  show ?thesis by auto
qed

theorem dry_run_no_delivery_witness:
  "test_mode (example_config True) \<and>
   map it_acts (iterations example_dry_run) = [[Generate], [Generate], [], [Generate]] \<and>
   Deliver \<notin> set (it_acts (iterations example_dry_run ! 0)) \<and>
   Mark \<notin> set (it_acts (iterations example_dry_run ! 0)) \<and>
   final_disk example_dry_run = Map.empty \<and>
   final_state example_dry_run = loaded_state example_dry_run"
proof -
  have t: "test_mode (example_config True)" by (simp add: example_config_def)
  note d = dry_run_no_delivery [OF t, of "example_env api_ok no_fault" Map.empty,
      folded example_dry_run_def]
  have m: "iterations example_dry_run ! 0 \<in> set (iterations example_dry_run)"
    by (simp add: example_dry_run_iterations)
  have a: "map it_acts (iterations example_dry_run) = [[Generate], [Generate], [], [Generate]]"
    by (simp add: example_dry_run_iterations)
  from d m t a show ?thesis by blast
qed

section \<open>Claim C9: what is_blocked decides\<close>

text \<open>
  C9. For every address \<open>e\<close> and every blocklist built by \<^verbatim>\<open>add_domains\<close> and \<^verbatim>\<open>add_emails\<close>
  from the empty one, \<open>is_blocked b e\<close> holds exactly when the trimmed, lower-cased \<open>e\<close> is
  in the blocked addresses, or it contains an \<^verbatim>\<open>@\<close> and its substring after the last
  \<^verbatim>\<open>@\<close> is in the blocked domains. The blocked domains never contain the empty string,
  so an address without \<^verbatim>\<open>@\<close>, whose domain is taken to be empty, matches no domain.
\<close>

theorem is_blocked_iff:
  assumes "reachable_blocklist b"
  shows "(is_blocked b e \<longleftrightarrow>
           normalize_email e \<in> set (blocked_emails b) \<or>
           (CHR ''@'' \<in> set (normalize_email e) \<and>
            after_last_at (normalize_email e) \<in> set (blocked_domains b))) \<and>
         [] \<notin> set (blocked_domains b) \<and>
         (CHR ''@'' \<notin> set (normalize_email e) \<longrightarrow>
            spec_domain (normalize_email e) = [] \<and>
            spec_domain (normalize_email e) \<notin> set (blocked_domains b) \<and>
            (is_blocked b e \<longleftrightarrow> normalize_email e \<in> set (blocked_emails b)))"
  using reachable_no_empty_domain [OF assms]
  by (auto simp: is_blocked_spec spec_domain_def)

theorem is_blocked_iff_witness:
  "reachable_blocklist (add_domains ['' Spam.Example '', ''  ''] empty_blocklist) \<and>
   blocked_domains (add_domains ['' Spam.Example '', ''  ''] empty_blocklist) = [''spam.example''] \<and>
   is_blocked (add_domains ['' Spam.Example '', ''  ''] empty_blocklist) ''X@Spam.example '' \<and>
   \<not> is_blocked (add_domains ['' Spam.Example '', ''  ''] empty_blocklist) ''spam.example''"
proof -
  let ?b = "add_domains ['' Spam.Example '', ''  ''] empty_blocklist"
  have r: "reachable_blocklist ?b"
    by (rule reach_domains [OF reach_empty])
  have d: "blocked_domains ?b = [''spam.example'']"
    by code_simp
  have yes: "CHR ''@'' \<in> set (normalize_email ''X@Spam.example '') \<and>
             after_last_at (normalize_email ''X@Spam.example '') \<in> set (blocked_domains ?b)"
    by code_simp
  have no: "CHR ''@'' \<notin> set (normalize_email ''spam.example'')"
    "normalize_email ''spam.example'' \<notin> set (blocked_emails ?b)"
    by code_simp+
  from is_blocked_iff [OF r, of "''X@Spam.example ''"] yes
  have 1: "is_blocked ?b ''X@Spam.example ''" by blast
  from is_blocked_iff [OF r, of "''spam.example''"] no
  have 2: "\<not> is_blocked ?b ''spam.example''" by blast
  from r d 1 2 show ?thesis by blast
qed

section \<open>Claim C10: the outcomes of send_email\<close>

text \<open>
  C10. \<open>send_email\<close> returns \<^verbatim>\<open>True\<close> exactly when the API call raises nothing,
  \<^verbatim>\<open>"QUOTA_ERROR"\<close> exactly when it raises \<^verbatim>\<open>HttpError\<close> with status 403 or 429, and \<^verbatim>\<open>False\<close>
  exactly for an \<^verbatim>\<open>HttpError\<close> of any other status; it returns one of the three exactly
  when nothing else is raised. Any other exception is not caught: in a run, the
  iteration that delivers and meets one does not call \<^verbatim>\<open>mark_sent\<close> and leaves the ledger
  as it was, it is the last iteration, and the run is aborted by that exception.
\<close>

theorem send_email_outcomes:
  "(send_email a = Inr Send_true \<longleftrightarrow> a = Api_ok) \<and>
   (send_email a = Inr Quota_error \<longleftrightarrow> a = Api_http_error 403 \<or> a = Api_http_error 429) \<and>
   (send_email a = Inr Send_false \<longleftrightarrow> (\<exists>s. a = Api_http_error s \<and> s \<noteq> 403 \<and> s \<noteq> 429)) \<and>
   (send_email a = Inl TransportError \<longleftrightarrow> a = Api_other_error) \<and>
   ((\<exists>res. send_email a = Inr res) \<longleftrightarrow> a \<noteq> Api_other_error) \<and>
   (\<forall>it\<in>set (iterations (run_sending_process w cfg fs)).
      Deliver \<in> set (it_acts it) \<and> gmail_api w (it_pos it) (it_email it) = Api_other_error \<longrightarrow>
        status (run_sending_process w cfg fs) = Aborted TransportError \<and>
        last (iterations (run_sending_process w cfg fs)) = it \<and>
        Mark \<notin> set (it_acts it) \<and> it_after it = it_before it \<and>
        final_state (run_sending_process w cfg fs) = Some (it_before it))"
proof -
  have api: "(send_email a = Inr Send_true \<longleftrightarrow> a = Api_ok) \<and>
   (send_email a = Inr Quota_error \<longleftrightarrow> a = Api_http_error 403 \<or> a = Api_http_error 429) \<and>
   (send_email a = Inr Send_false \<longleftrightarrow> (\<exists>s. a = Api_http_error s \<and> s \<noteq> 403 \<and> s \<noteq> 429)) \<and>
   (send_email a = Inl TransportError \<longleftrightarrow> a = Api_other_error) \<and>
   ((\<exists>res. send_email a = Inr res) \<longleftrightarrow> a \<noteq> Api_other_error)"
    by (cases a) (auto simp: send_email_def)
  have run: "status (run_sending_process w cfg fs) = Aborted TransportError \<and>
        last (iterations (run_sending_process w cfg fs)) = it \<and>
        Mark \<notin> set (it_acts it) \<and> it_after it = it_before it \<and>
        final_state (run_sending_process w cfg fs) = Some (it_before it)"
    if mem: "it \<in> set (iterations (run_sending_process w cfg fs))"
      and d: "Deliver \<in> set (it_acts it)"
      and a: "gmail_api w (it_pos it) (it_email it) = Api_other_error" for it
    using mem
  proof (cases rule: run_iteration)
    case (1 st0 rows row mb ma ctl)
    from a 1(4) have s: "send_email (gmail_api w (it_pos it) (email row)) = Inl TransportError"
      by (simp add: send_email_def)
    then have "send_email (gmail_api w (it_pos it) (email row)) \<noteq> Inr Send_true" by simp
    from process_row_stop_unmarked [OF 1(7) d this] s
    have "ma = mb" "Mark \<notin> set (it_acts it)" "ctl = Stop (Aborted TransportError)" by simp_all
    with 1(5,6) 1(12) [of "Aborted TransportError"] show ?thesis by simp
  qed
  from api run show ?thesis by blast
qed

theorem send_email_outcomes_witness:
  "send_email (Api_http_error 429) = Inr Quota_error \<and>
   send_email (Api_http_error 500) = Inr Send_false \<and>
   iterations example_raise_run ! 1 \<in> set (iterations example_raise_run) \<and>
   Deliver \<in> set (it_acts (iterations example_raise_run ! 1)) \<and>
   gmail_api (example_env api_raise_1 no_fault) (it_pos (iterations example_raise_run ! 1))
     (it_email (iterations example_raise_run ! 1)) = Api_other_error \<and>
   status example_raise_run = Aborted TransportError \<and>
   final_state example_raise_run = Some (it_before (iterations example_raise_run ! 1))"
proof -
  note t = send_email_outcomes [of _ "example_env api_raise_1 no_fault" "example_config False" Map.empty,
      folded example_raise_run_def]
  from t [of "Api_http_error 429"] have q: "send_email (Api_http_error 429) = Inr Quota_error"
    by blast
  from t [of "Api_http_error 500"] have f: "send_email (Api_http_error 500) = Inr Send_false"
    by simp
  have m: "iterations example_raise_run ! 1 \<in> set (iterations example_raise_run)"
    and d: "Deliver \<in> set (it_acts (iterations example_raise_run ! 1))"
    and a: "gmail_api (example_env api_raise_1 no_fault) (it_pos (iterations example_raise_run ! 1))
     (it_email (iterations example_raise_run ! 1)) = Api_other_error"
    by (simp_all add: example_raise_run_iterations example_env_def api_raise_1_def)
  from t [of Api_ok] m d a have "status example_raise_run = Aborted TransportError \<and>
   final_state example_raise_run = Some (it_before (iterations example_raise_run ! 1))"
    by blast
  with q f m d a show ?thesis by blast
qed

end
